theory Spec2Isabelle
  imports
    Complex_Main
    "HOL-Library.Multiset"
    "HOL-Library.Monad_Syntax"
    "HOL-Library.Signed_Division"
begin

section \<open>Sensor data read and processing: a shallow embedding of sensor.c\<close>

text \<open>
  The program samples a light and a temperature sensor twice per second, keeps the last
  twelve readings of each in two buffers, measures the activity of the light readings
  after every sixth reading and fits a Theil-Sen line after every twelfth.

  Conventions of the embedding.
  \<^item> A C \<open>float\<close> is a \<open>real\<close>: arithmetic is exact, there is no rounding, no
    infinity and no NaN. Every statement below is about this idealised arithmetic.
  \<^item> A C \<open>int\<close> is an \<open>int\<close>; the counters of the program stay far below any
    machine bound (the largest is 144). A loop counter that starts at 0 and only grows
    is a \<open>nat\<close>.
  \<^item> A C array is a list of the declared size. Every read and write goes through
    \<open>rd\<close> and \<open>wr\<close>, which check the index against the array: an access outside
    the array is undefined behaviour in C and the value \<open>None\<close> here. In the model of
    the program \<open>None\<close> has no other meaning.
  \<^item> A \<open>for\<close> loop whose counter runs through a range and is not assigned in the body
    is \<open>for_loop\<close> over that range.
\<close>

subsection \<open>Arrays and loops\<close>

definition rd :: "'a list \<Rightarrow> int \<Rightarrow> 'a option" where
  "rd a n = (if 0 \<le> n \<and> n < int (length a) then Some (a ! nat n) else None)"

definition wr :: "'a list \<Rightarrow> int \<Rightarrow> 'a \<Rightarrow> 'a list option" where
  "wr a n v = (if 0 \<le> n \<and> n < int (length a) then Some (a[nat n := v]) else None)"

fun for_loop :: "nat list \<Rightarrow> (nat \<Rightarrow> 's \<Rightarrow> 's option) \<Rightarrow> 's \<Rightarrow> 's option" where
  "for_loop [] body s = Some s"
| "for_loop (n # ns) body s = (case body n s of None \<Rightarrow> None | Some s' \<Rightarrow> for_loop ns body s')"

subsection \<open>Number formatting (lines 22-37, 96, 205-206)\<close>

text \<open>
  The conversion of a \<open>float\<close> to an integer type discards the fraction. C defines it
  only when the result fits the integer type; the model covers that range.
\<close>

definition trunc :: "real \<Rightarrow> int" where
  "trunc f = (if 0 \<le> f then \<lfloor>f\<rfloor> else \<lceil>f\<rceil>)"

definition d1 :: "real \<Rightarrow> int" where
  "d1 f = trunc f"

definition d2 :: "real \<Rightarrow> nat" where
  "d2 f = (if f > 0 then nat (trunc (1000 * (f - of_int (d1 f))))
           else nat (trunc (1000 * (of_int (d1 f) - f))))"

text \<open>The conversions \<open>%d\<close> and \<open>%03u\<close> of printf, and the format \<open>%d.%03u\<close>
  with which every number of the program is printed.\<close>

fun dec :: "nat \<Rightarrow> string" where
  "dec n = (if n < 10 then [''0123456789'' ! n] else dec (n div 10) @ [''0123456789'' ! (n mod 10)])"

declare dec.simps [simp del]

definition printf_d :: "int \<Rightarrow> string" where
  "printf_d n = (if n < 0 then CHR ''-'' # dec (nat (- n)) else dec (nat n))"

definition printf_03u :: "nat \<Rightarrow> string" where
  "printf_03u n = replicate (3 - length (dec n)) CHR ''0'' @ dec n"

definition print_number :: "real \<Rightarrow> string" where
  "print_number f = printf_d (d1 f) @ ''.'' @ printf_03u (d2 f)"

subsection \<open>The sensor values (lines 42-66)\<close>

text \<open>The two translations of a raw sensor value, for the value that the sensor returns.\<close>

definition getTemperature :: "int \<Rightarrow> real" where
  "getTemperature tempADC = 0.04 * of_int tempADC - 39.6"

definition getLight :: "int \<Rightarrow> real" where
  "getLight raw =
     (let V_sensor = 1.5 * of_int raw / 4096;
          I = V_sensor / 100000;
          light_lx = 0.625 * 1000000 * I * 1000
      in light_lx)"

subsection \<open>The square root (lines 71-85)\<close>

text \<open>
  \<open>sqrt_loop S n x\<close> is the loop of \<open>sqrt\<close> entered with counter \<open>n\<close> and guess
  \<open>x\<close>. It returns the guess and the counter with which the loop is left: the counter
  is below 50 exactly when the loop is left by \<open>break\<close>.
\<close>

definition error :: real where
  "error = 0.001"

function sqrt_loop :: "real \<Rightarrow> int \<Rightarrow> real \<Rightarrow> real \<times> int" where
  "sqrt_loop S n x =
     (if n < 50 then
        (let x' = 0.5 * (x + S / x);
             difference = x' * x' - S;
             difference' = (if difference < 0 then - difference else difference)
         in if difference' < error then (x', n) else sqrt_loop S (n + 1) x')
      else (x, n))"
  by pat_completeness auto
termination
  by (relation "measure (\<lambda>(S, n, x). nat (50 - n))") auto

declare sqrt_loop.simps [simp del]

definition sqrt_c :: "real \<Rightarrow> real" where
  "sqrt_c S = fst (sqrt_loop S 0 10.0)"

subsection \<open>The median (lines 108-135)\<close>

text \<open>
  \<open>getMedian\<close> sorts the first \<open>TSElementsCount\<close> elements of the array in place, so
  the model returns the array with the median. The operators \<open>/\<close> and \<open>%\<close> of C on
  \<open>int\<close> round towards zero: they are \<open>sdiv\<close> and \<open>smod\<close>.
\<close>

definition exchange :: "nat \<Rightarrow> nat \<Rightarrow> real list \<Rightarrow> real list option" where
  "exchange m n TS = do {
     a \<leftarrow> rd TS (int m);
     b \<leftarrow> rd TS (int n);
     if a > b then do {
       TS1 \<leftarrow> wr TS (int m) b;
       wr TS1 (int n) a }
     else Some TS }"

definition sort_array :: "real list \<Rightarrow> int \<Rightarrow> real list option" where
  "sort_array TS TSElementsCount =
     for_loop [0..<nat (TSElementsCount - 1)]
       (\<lambda>m. for_loop [m + 1..<nat TSElementsCount] (exchange m)) TS"

definition getMedian :: "real list \<Rightarrow> int \<Rightarrow> (real \<times> real list) option" where
  "getMedian TS TSElementsCount = do {
     TS' \<leftarrow> sort_array TS TSElementsCount;
     median \<leftarrow>
       (if TSElementsCount smod 2 = 0 then do {
          a \<leftarrow> rd TS' (TSElementsCount sdiv 2 - 1);
          b \<leftarrow> rd TS' (TSElementsCount sdiv 2);
          Some ((a + b) / 2) }
        else rd TS' (TSElementsCount sdiv 2));
     Some (median, TS') }"

subsection \<open>The process (lines 142-341)\<close>

text \<open>
  What the process prints is kept as a list of reports, one per block of printf calls:
  the reading of a tick (lines 205-206), the measurement report (lines 264-286: the
  light buffer, the standard deviation, the number of aggregated elements and that many
  elements of \<open>X\<close>) and the regression report (lines 321-334: both buffers, median
  slope, median offset and the estimated temperatures).
\<close>

datatype event =
    is_Reading: Reading real real
  | is_Measurement: Measurement "real list" real int "real list"
  | is_Regression: Regression "real list" "real list" real real "real list"

text \<open>The static variables of the process thread, and what it has printed so far.
  The static loop counters \<open>i\<close> and \<open>j\<close> are the counters of \<open>for_loop\<close>.\<close>

record state =
  readcount :: int
  B :: "real list"
  T :: "real list"
  Sum :: real
  Mean :: real
  SumofDistSquares :: real
  StdDev :: real
  AggrElementsCount :: int
  X :: "real list"
  slopes :: "real list"
  slopes_count :: int
  median_slope :: real
  offsets :: "real list"
  median_offset :: real
  EstT :: "real list"
  printed :: "event list"

definition k :: int where
  "k = 6"

text \<open>Static storage starts as zero (lines 146-165).\<close>

definition initial_state :: state where
  "initial_state = \<lparr>readcount = 0, B = replicate 12 0, T = replicate 12 0,
     Sum = 0, Mean = 0, SumofDistSquares = 0, StdDev = 0, AggrElementsCount = 0,
     X = replicate 12 0, slopes = replicate 144 0, slopes_count = 0, median_slope = 0,
     offsets = replicate 12 0, median_offset = 0, EstT = replicate 12 0, printed = []\<rparr>"

text \<open>The arrays have their declared sizes.\<close>

definition sized :: "state \<Rightarrow> bool" where
  "sized s = (length (B s) = 12 \<and> length (T s) = 12 \<and> length (X s) = 12 \<and>
     length (slopes s) = 144 \<and> length (offsets s) = 12 \<and> length (EstT s) = 12)"

text \<open>Lines 186-193.\<close>

definition count_read :: "state \<Rightarrow> state" where
  "count_read s =
     (if readcount s < 12 then s\<lparr>readcount := readcount s + 1\<rparr> else s\<lparr>readcount := 1\<rparr>)"

text \<open>Lines 198-206: the FIFO buffers.\<close>

definition push :: "real \<Rightarrow> real \<Rightarrow> state \<Rightarrow> state option" where
  "push light_lx temp_c s = do {
     s \<leftarrow> for_loop [0..<11] (\<lambda>n s. do {
            b \<leftarrow> rd (B s) (int n + 1);
            B' \<leftarrow> wr (B s) (int n) b;
            t \<leftarrow> rd (T s) (int n + 1);
            T' \<leftarrow> wr (T s) (int n) t;
            Some (s\<lparr>B := B', T := T'\<rparr>) }) s;
     B' \<leftarrow> wr (B s) 11 light_lx;
     T' \<leftarrow> wr (T s) 11 temp_c;
     Some (s\<lparr>B := B', T := T', printed := printed s @ [Reading light_lx temp_c]\<rparr>) }"

text \<open>Lines 214-226: the standard deviation of the light buffer.\<close>

definition standard_deviation :: "state \<Rightarrow> state option" where
  "standard_deviation s = do {
     s \<leftarrow> for_loop [0..<12] (\<lambda>n s. do {
            b \<leftarrow> rd (B s) (int n);
            Some (s\<lparr>Sum := Sum s + b\<rparr>) }) (s\<lparr>Sum := 0\<rparr>);
     s \<leftarrow> for_loop [0..<12] (\<lambda>n s. do {
            b \<leftarrow> rd (B s) (int n);
            Some (s\<lparr>SumofDistSquares := SumofDistSquares s + ((b - Mean s) * (b - Mean s))\<rparr>) })
          (s\<lparr>Mean := Sum s / 12, SumofDistSquares := 0\<rparr>);
     Some (s\<lparr>StdDev := sqrt_c (SumofDistSquares s)\<rparr>) }"

text \<open>Lines 229-243.\<close>

definition classify :: "real \<Rightarrow> int" where
  "classify sd = (if sd < 100 then 1 else if sd < 1000 then 3 else 12)"

text \<open>Lines 245-261.\<close>

definition aggregate :: "state \<Rightarrow> state option" where
  "aggregate s = do {
     s \<leftarrow> (if AggrElementsCount s = 1 then do {
             b0 \<leftarrow> rd (B s) 0; b1 \<leftarrow> rd (B s) 1; b2 \<leftarrow> rd (B s) 2; b3 \<leftarrow> rd (B s) 3;
             b4 \<leftarrow> rd (B s) 4; b5 \<leftarrow> rd (B s) 5; b6 \<leftarrow> rd (B s) 6; b7 \<leftarrow> rd (B s) 7;
             b8 \<leftarrow> rd (B s) 8; b9 \<leftarrow> rd (B s) 9; b10 \<leftarrow> rd (B s) 10; b11 \<leftarrow> rd (B s) 11;
             X' \<leftarrow> wr (X s) 0 ((b0 + b1 + b2 + b3 + b4 + b5 + b6 + b7 + b8 + b9 + b10 + b11) / 12);
             Some (s\<lparr>X := X'\<rparr>) }
           else Some s);
     s \<leftarrow> (if AggrElementsCount s = 3 then do {
             b0 \<leftarrow> rd (B s) 0; b1 \<leftarrow> rd (B s) 1; b2 \<leftarrow> rd (B s) 2; b3 \<leftarrow> rd (B s) 3;
             X' \<leftarrow> wr (X s) 0 ((b0 + b1 + b2 + b3) / 4);
             b4 \<leftarrow> rd (B s) 4; b5 \<leftarrow> rd (B s) 5; b6 \<leftarrow> rd (B s) 6; b7 \<leftarrow> rd (B s) 7;
             X' \<leftarrow> wr X' 1 ((b4 + b5 + b6 + b7) / 4);
             b8 \<leftarrow> rd (B s) 8; b9 \<leftarrow> rd (B s) 9; b10 \<leftarrow> rd (B s) 10; b11 \<leftarrow> rd (B s) 11;
             X' \<leftarrow> wr X' 2 ((b8 + b9 + b10 + b11) / 4);
             Some (s\<lparr>X := X'\<rparr>) }
           else Some s);
     if AggrElementsCount s = 12 then
       for_loop [0..<12] (\<lambda>n s. do {
         b \<leftarrow> rd (B s) (int n);
         X' \<leftarrow> wr (X s) (int n) b;
         Some (s\<lparr>X := X'\<rparr>) }) s
     else Some s }"

text \<open>Lines 211-287, entered when the read count is \<open>k\<close> or \<open>2*k\<close>.\<close>

definition activity_measurement :: "state \<Rightarrow> state option" where
  "activity_measurement s = do {
     s \<leftarrow> standard_deviation s;
     s \<leftarrow> aggregate (s\<lparr>AggrElementsCount := classify (StdDev s)\<rparr>);
     Some (s\<lparr>printed := printed s @
       [Measurement (B s) (StdDev s) (AggrElementsCount s) (take (nat (AggrElementsCount s)) (X s))]\<rparr>) }"

text \<open>Lines 299-302: the body of the inner loop over the pairs of readings.\<close>

definition slope_step :: "nat \<Rightarrow> nat \<Rightarrow> state \<Rightarrow> state option" where
  "slope_step m n s = do {
     bm \<leftarrow> rd (B s) (int m);
     bn \<leftarrow> rd (B s) (int n);
     if bm \<noteq> bn then do {
       tn \<leftarrow> rd (T s) (int n);
       tm \<leftarrow> rd (T s) (int m);
       slopes' \<leftarrow> wr (slopes s) (slopes_count s) ((tn - tm) / (bn - bm));
       Some (s\<lparr>slopes := slopes', slopes_count := slopes_count s + 1\<rparr>) }
     else Some s }"

text \<open>Lines 294-304: the slopes of all pairs of readings with different light values.\<close>

definition collect_slopes :: "state \<Rightarrow> state option" where
  "collect_slopes s =
     for_loop [0..<12] (\<lambda>m. for_loop [m + 1..<12] (slope_step m)) (s\<lparr>slopes_count := 0\<rparr>)"

text \<open>Lines 307-310.\<close>

definition compute_offsets :: "state \<Rightarrow> state option" where
  "compute_offsets s =
     for_loop [0..<12] (\<lambda>n s. do {
       t \<leftarrow> rd (T s) (int n);
       b \<leftarrow> rd (B s) (int n);
       offsets' \<leftarrow> wr (offsets s) (int n) (t - median_slope s * b);
       Some (s\<lparr>offsets := offsets'\<rparr>) }) s"

text \<open>Lines 315-318: the estimated temperature vector.\<close>

definition estimate_temperatures :: "state \<Rightarrow> state option" where
  "estimate_temperatures s =
     for_loop [0..<12] (\<lambda>n s. do {
       b \<leftarrow> rd (B s) (int n);
       EstT' \<leftarrow> wr (EstT s) (int n) (median_slope s * b + median_offset s);
       Some (s\<lparr>EstT := EstT'\<rparr>) }) s"

text \<open>Lines 292-335, entered when the read count is 12.\<close>

definition regression_analysis :: "state \<Rightarrow> state option" where
  "regression_analysis s = do {
     s \<leftarrow> collect_slopes s;
     (median, slopes') \<leftarrow> getMedian (slopes s) (slopes_count s);
     s \<leftarrow> compute_offsets (s\<lparr>slopes := slopes', median_slope := median\<rparr>);
     (median, offsets') \<leftarrow> getMedian (offsets s) 12;
     s \<leftarrow> estimate_temperatures (s\<lparr>offsets := offsets', median_offset := median\<rparr>);
     Some (s\<lparr>printed := printed s @
       [Regression (B s) (T s) (median_slope s) (median_offset s) (EstT s)]\<rparr>) }"

text \<open>
  One pass through the body of the \<open>while\<close> loop (lines 177-337), for the values that
  \<open>getTemperature\<close> and \<open>getLight\<close> return at this timer event.
\<close>

definition tick :: "real \<Rightarrow> real \<Rightarrow> state \<Rightarrow> state option" where
  "tick temp_c light_lx s = do {
     s \<leftarrow> push light_lx temp_c (count_read s);
     s \<leftarrow> (if readcount s = k \<or> readcount s = 2 * k then activity_measurement s else Some s);
     if readcount s = 12 then regression_analysis s else Some s }"

fun ticks :: "(real \<times> real) list \<Rightarrow> state \<Rightarrow> state option" where
  "ticks [] s = Some s"
| "ticks ((temp_c, light_lx) # rs) s =
     (case tick temp_c light_lx s of None \<Rightarrow> None | Some s' \<Rightarrow> ticks rs s')"

text \<open>The example of the specification: light 1, 2, ..., 12 and temperature twice the light.\<close>

definition sample_state :: state where
  "sample_state = initial_state\<lparr>B := [1, 2, 3, 4, 5, 6, 7, 8, 9, 10, 11, 12],
     T := [2, 4, 6, 8, 10, 12, 14, 16, 18, 20, 22, 24]\<rparr>"

subsection \<open>The specification's words\<close>

text \<open>
  The specification describes the square root as Newton's method from the guess 10,
  stopped by a tolerance on the square: \<open>newton S m\<close> is the guess after \<open>m\<close>
  iterations, \<open>within_tolerance S x\<close> the stopping test.
\<close>

primrec newton :: "real \<Rightarrow> nat \<Rightarrow> real" where
  "newton S 0 = 10.0"
| "newton S (Suc m) = 0.5 * (newton S m + S / newton S m)"

definition within_tolerance :: "real \<Rightarrow> real \<Rightarrow> bool" where
  "within_tolerance S x = (\<bar>x * x - S\<bar> < 0.001)"

text \<open>The sum of squared deviations from the mean of a window of twelve.\<close>

definition squared_deviations :: "real list \<Rightarrow> real" where
  "squared_deviations w = (let mean = sum_list w / 12 in (\<Sum>x\<leftarrow>w. (x - mean)\<^sup>2))"

subsection \<open>Invariants of the sorting loops, and the median of a sorted list\<close>

definition inner_inv :: "nat \<Rightarrow> nat \<Rightarrow> real list \<Rightarrow> nat \<Rightarrow> real list \<Rightarrow> bool" where
  "inner_inv N m TS0 n TS =
     (length TS = length TS0 \<and> mset TS = mset TS0 \<and>
      (\<forall>p. p < m \<or> N \<le> p \<longrightarrow> TS ! p = TS0 ! p) \<and>
      (\<forall>p. m \<le> p \<and> p < N \<longrightarrow> (\<exists>q. m \<le> q \<and> q < N \<and> TS ! p = TS0 ! q)) \<and>
      (\<forall>p. m < p \<and> p < n \<longrightarrow> TS ! m \<le> TS ! p))"

definition outer_inv :: "nat \<Rightarrow> real list \<Rightarrow> nat \<Rightarrow> real list \<Rightarrow> bool" where
  "outer_inv N TS0 m TS =
     (length TS = length TS0 \<and> mset TS = mset TS0 \<and>
      (\<forall>p \<ge> N. TS ! p = TS0 ! p) \<and>
      (\<forall>p q. p < m \<and> p < q \<and> q < N \<longrightarrow> TS ! p \<le> TS ! q))"

definition median_of_sorted :: "real list \<Rightarrow> real" where
  "median_of_sorted ys =
     (if length ys mod 2 = 0 then (ys ! (length ys div 2 - 1) + ys ! (length ys div 2)) / 2
      else ys ! (length ys div 2))"

subsection \<open>The Theil-Sen estimator of the specification\<close>

text \<open>
  The Theil-Sen estimator in the specification's words: the slopes of the pairs
  \<open>i < j\<close> with different light values, row by row; the median of a list (sorted
  ascending, then the middle element or the average of the two middle elements), which
  the specification leaves undefined for the empty list; the offsets; the predictions.
\<close>

definition row_slopes :: "real list \<Rightarrow> real list \<Rightarrow> nat \<Rightarrow> real list" where
  "row_slopes light temp i =
     [(temp ! j - temp ! i) / (light ! j - light ! i). j \<leftarrow> [i + 1..<12], light ! i \<noteq> light ! j]"

definition pair_slopes :: "real list \<Rightarrow> real list \<Rightarrow> real list" where
  "pair_slopes light temp = concat (map (row_slopes light temp) [0..<12])"

definition median_spec :: "real list \<Rightarrow> real option" where
  "median_spec xs = (if xs = [] then None else Some (median_of_sorted (sort xs)))"

definition offsets_spec :: "real list \<Rightarrow> real list \<Rightarrow> real \<Rightarrow> real list" where
  "offsets_spec light temp medianSlope = map (\<lambda>i. temp ! i - medianSlope * light ! i) [0..<12]"

definition predicted_spec :: "real list \<Rightarrow> real \<Rightarrow> real \<Rightarrow> real list" where
  "predicted_spec light medianSlope medianOffset =
     map (\<lambda>i. medianSlope * light ! i + medianOffset) [0..<12]"

definition theil_sen :: "real list \<Rightarrow> real list \<Rightarrow> (real \<times> real \<times> real list) option" where
  "theil_sen light temp = do {
     medianSlope \<leftarrow> median_spec (pair_slopes light temp);
     medianOffset \<leftarrow> median_spec (offsets_spec light temp medianSlope);
     Some (medianSlope, medianOffset, predicted_spec light medianSlope medianOffset) }"

text \<open>The state after the slopes \<open>new\<close> were stored behind the slopes already counted.\<close>

definition append_slopes :: "real list \<Rightarrow> state \<Rightarrow> state" where
  "append_slopes new s =
     s\<lparr>slopes := take (nat (slopes_count s)) (slopes s) @ new @
                  drop (nat (slopes_count s) + length new) (slopes s),
       slopes_count := slopes_count s + int (length new)\<rparr>"

section \<open>Properties\<close>

subsection \<open>Arrays of twelve\<close>

lemma upt_12:
  "[0..<12] = [0, 1, 2, 3, 4, 5, 6, 7, 8, 9, 10, 11]"
  "[0..<11] = [0, 1, 2, 3, 4, 5, 6, 7, 8, 9, 10]"
  by code_simp+

lemma list12:
  "length xs = 12 \<Longrightarrow> \<exists>x0 x1 x2 x3 x4 x5 x6 x7 x8 x9 x10 x11.
     xs = [x0, x1, x2, x3, x4, x5, x6, x7, x8, x9, x10, x11]"
  by (auto simp: eval_nat_numeral length_Suc_conv)

lemma rd_int [simp]: "rd a (int m) = (if m < length a then Some (a ! m) else None)"
  by (simp add: rd_def)

lemma wr_int [simp]: "wr a (int m) v = (if m < length a then Some (a[m := v]) else None)"
  by (simp add: wr_def)

subsection \<open>The square root\<close>

lemma newton_pos: "0 \<le> S \<Longrightarrow> 0 < newton S m"
  by (induction m) (auto intro: add_pos_nonneg)

lemma sqrt_loop_step:
  "n < 50 \<Longrightarrow> sqrt_loop S n x =
     (let x' = 0.5 * (x + S / x)
      in if within_tolerance S x' then (x', n) else sqrt_loop S (n + 1) x')"
  by (subst sqrt_loop.simps) (simp only: Let_def within_tolerance_def error_def abs_if if_True)

lemma sqrt_loop_exit: "\<not> n < 50 \<Longrightarrow> sqrt_loop S n x = (x, n)"
  by (subst sqrt_loop.simps) simp

text \<open>
  Entered with the guess of iteration \<open>n\<close>, the loop returns the first later guess that
  meets the tolerance, or the fiftieth guess when none does.
\<close>

lemma sqrt_loop_newton:
  "0 \<le> n \<Longrightarrow> n < 50 \<Longrightarrow> x = newton S (nat n) \<Longrightarrow>
   \<exists>m. nat n < m \<and> m \<le> 50 \<and> fst (sqrt_loop S n x) = newton S m \<and>
       (\<forall>p. nat n < p \<and> p < m \<longrightarrow> \<not> within_tolerance S (newton S p)) \<and>
       (if within_tolerance S (newton S m) then snd (sqrt_loop S n x) = int m - 1
        else m = 50 \<and> snd (sqrt_loop S n x) = 50)"
proof (induction S n x rule: sqrt_loop.induct)
  case (1 S n x)
  define x' where "x' = 0.5 * (x + S / x)"
  have x': "x' = newton S (Suc (nat n))"
    using "1.prems" by (simp add: x'_def)
  have suc: "Suc (nat n) = nat (n + 1)"
    using "1.prems" by simp
  have unf: "sqrt_loop S n x =
      (if within_tolerance S x' then (x', n) else sqrt_loop S (n + 1) x')"
    using "1.prems"(2) by (simp only: sqrt_loop_step Let_def x'_def)
  show ?case
  proof (cases "within_tolerance S x'")
    case True
    then have "sqrt_loop S n x = (x', n)"
      by (simp only: unf if_True)
    then show ?thesis
      using True x' "1.prems" by (intro exI [of _ "Suc (nat n)"]) auto
  next
    case False
    then have step: "sqrt_loop S n x = sqrt_loop S (n + 1) x'"
      by (simp only: unf if_False)
    show ?thesis
    proof (cases "n + 1 < 50")
      case True
      have "\<exists>m. nat (n + 1) < m \<and> m \<le> 50 \<and> fst (sqrt_loop S (n + 1) x') = newton S m \<and>
         (\<forall>p. nat (n + 1) < p \<and> p < m \<longrightarrow> \<not> within_tolerance S (newton S p)) \<and>
         (if within_tolerance S (newton S m) then snd (sqrt_loop S (n + 1) x') = int m - 1
          else m = 50 \<and> snd (sqrt_loop S (n + 1) x') = 50)"
      proof (rule "1.IH" [OF _ x'_def refl refl _ _ True])
        show "n < 50" by (rule "1.prems")
        show "\<not> (if x' * x' - S < 0 then - (x' * x' - S) else x' * x' - S) < error"
          using False by (simp only: within_tolerance_def error_def abs_if not_False_eq_True)
        show "0 \<le> n + 1" using "1.prems" by simp
        show "x' = newton S (nat (n + 1))" using x' suc by simp
      qed
      then obtain m where m: "nat (n + 1) < m" "m \<le> 50"
        "fst (sqrt_loop S (n + 1) x') = newton S m"
        "\<forall>p. nat (n + 1) < p \<and> p < m \<longrightarrow> \<not> within_tolerance S (newton S p)"
        "if within_tolerance S (newton S m) then snd (sqrt_loop S (n + 1) x') = int m - 1
          else m = 50 \<and> snd (sqrt_loop S (n + 1) x') = 50"
        by blast
      have "\<forall>p. nat n < p \<and> p < m \<longrightarrow> \<not> within_tolerance S (newton S p)"
      proof (intro allI impI)
        fix p assume p: "nat n < p \<and> p < m"
        show "\<not> within_tolerance S (newton S p)"
        proof (cases "p = Suc (nat n)")
          case True
          then show ?thesis using False x' by simp
        next
          case False
          then show ?thesis using p m(4) suc by auto
        qed
      qed
      then show ?thesis
        using m suc step by (intro exI [of _ m]) auto
    next
      case False
      then have n: "n = 49" using "1.prems" by simp
      have "sqrt_loop S (n + 1) x' = (x', 50)"
        using n by (simp add: sqrt_loop_exit)
      then show ?thesis
        using step x' n \<open>\<not> within_tolerance S x'\<close>
        by (intro exI [of _ 50]) (auto simp: less_Suc_eq)
    qed
  qed
qed

text \<open>
  The value returned for a non-negative argument is positive and is the first guess,
  among the first fifty, whose square is within the tolerance, or the fiftieth.
\<close>

lemma sqrt_c_first_iterate:
  assumes "0 \<le> S"
  shows "\<exists>m. 1 \<le> m \<and> m \<le> 50 \<and> sqrt_c S = newton S m \<and> 0 < sqrt_c S \<and>
           (\<forall>p. 1 \<le> p \<and> p < m \<longrightarrow> \<not> within_tolerance S (newton S p)) \<and>
           (within_tolerance S (sqrt_c S) \<or> m = 50)"
proof -
  obtain m where m: "nat 0 < m" "m \<le> 50" "fst (sqrt_loop S 0 10.0) = newton S m"
    "\<forall>p. nat 0 < p \<and> p < m \<longrightarrow> \<not> within_tolerance S (newton S p)"
    "if within_tolerance S (newton S m) then snd (sqrt_loop S 0 10.0) = int m - 1
     else m = 50 \<and> snd (sqrt_loop S 0 10.0) = 50"
    using sqrt_loop_newton [of 0 "10.0" S] by auto
  have "0 < newton S m"
    using assms by (rule newton_pos)
  then show ?thesis
    using m by (intro exI [of _ m]) (auto simp: sqrt_c_def split: if_splits)
qed

text \<open>
  C6. For every \<open>S \<ge> 0\<close> the square root starts from the guess 10 and returns the guess
  of Newton's iteration \<open>x = 0.5*(x + S/x)\<close> after \<open>m\<close> steps, where \<open>m\<close> is the first
  step from 1 to 50 whose guess has \<open>|x*x - S| < 0.001\<close>, and 50 when there is none;
  every division is by a positive guess. So the value returned has
  \<open>|x*x - S| < 0.001\<close> unless all 50 iterations were used, and it has it whenever the
  loop was left by \<open>break\<close>.
\<close>

theorem sqrt_c_newton:
  assumes "0 \<le> S"
  shows "\<exists>m. 1 \<le> m \<and> m \<le> 50 \<and> sqrt_c S = newton S m \<and>
           (\<forall>p < m. 0 < newton S p) \<and>
           (\<forall>p. 1 \<le> p \<and> p < m \<longrightarrow> \<not> within_tolerance S (newton S p)) \<and>
           (\<bar>sqrt_c S * sqrt_c S - S\<bar> < 0.001 \<or> m = 50) \<and>
           (snd (sqrt_loop S 0 10.0) < 50 \<longrightarrow> \<bar>sqrt_c S * sqrt_c S - S\<bar> < 0.001)"
proof -
  obtain m where m: "nat 0 < m" "m \<le> 50" "fst (sqrt_loop S 0 10.0) = newton S m"
    "\<forall>p. nat 0 < p \<and> p < m \<longrightarrow> \<not> within_tolerance S (newton S p)"
    "if within_tolerance S (newton S m) then snd (sqrt_loop S 0 10.0) = int m - 1
     else m = 50 \<and> snd (sqrt_loop S 0 10.0) = 50"
    using sqrt_loop_newton [of 0 "10.0" S] by auto
  have "snd (sqrt_loop S 0 10.0) < 50 \<longrightarrow> within_tolerance S (newton S m)"
    using m(5) by (auto split: if_splits)
  then show ?thesis
    using m newton_pos [OF assms]
    by (intro exI [of _ m]) (auto simp: sqrt_c_def within_tolerance_def split: if_splits)
qed

theorem sqrt_c_newton_witness:
  "(0::real) \<le> 2 \<and> sqrt_loop 2 0 10.0 =
     (52578694120310035927738924801 / 37170548253351666881178440160, 4) \<and>
   \<bar>sqrt_c 2 * sqrt_c 2 - 2\<bar> < 0.001"
proof -
  have run: "sqrt_loop 2 0 10.0 =
      (52578694120310035927738924801 / 37170548253351666881178440160, 4)"
    by (simp add: sqrt_loop_step within_tolerance_def)
  have "snd (sqrt_loop 2 0 10.0) < 50 \<longrightarrow> \<bar>sqrt_c 2 * sqrt_c 2 - 2\<bar> < 0.001"
    using sqrt_c_newton [of 2] by auto
  then show ?thesis
    using run by simp
qed

subsection \<open>Number formatting\<close>

text \<open>
  The thousandths are those of the absolute value and are below 1000, so they are three
  digits after padding. A value of -1 or below is printed with a leading minus; a value
  between -1 and 0 is printed as \<open>0.\<close> and the thousandths, without one.
\<close>

lemma dec_digit: "n < 10 \<Longrightarrow> dec n = [''0123456789'' ! n]"
  by (simp add: dec.simps)

lemma d1_small_negative: "- 1 < f \<Longrightarrow> f < 0 \<Longrightarrow> d1 f = 0"
  by (simp add: d1_def trunc_def ceiling_eq_iff)

lemma print_number_small_negative:
  assumes "- 1 < f" "f < 0"
  shows "print_number f = ''0.'' @ printf_03u (d2 f)"
  using assms by (simp add: print_number_def d1_small_negative printf_d_def dec_digit)

lemma print_number_negative:
  assumes "f \<le> - 1"
  shows "hd (print_number f) = CHR ''-''"
proof -
  have "\<lceil>f\<rceil> \<le> - 1"
    using assms by (simp add: ceiling_le_iff)
  then show ?thesis
    using assms by (simp add: print_number_def d1_def trunc_def printf_d_def)
qed

lemma d2_absolute: "d2 f = nat \<lfloor>1000 * (\<bar>f\<bar> - of_int \<lfloor>\<bar>f\<bar>\<rfloor>)\<rfloor>"
proof (cases "f > 0")
  case True
  then show ?thesis
    by (simp add: d2_def d1_def trunc_def)
next
  case False
  then have f: "f \<le> 0" by simp
  define x where "x = 1000 * (of_int \<lceil>f\<rceil> - f)"
  have x: "0 \<le> x"
    by (simp add: x_def)
  have "of_int \<lceil>f\<rceil> - f = \<bar>f\<bar> - of_int \<lfloor>\<bar>f\<bar>\<rfloor>"
    using f by (simp add: ceiling_def)
  then have "x = 1000 * (\<bar>f\<bar> - of_int \<lfloor>\<bar>f\<bar>\<rfloor>)"
    by (simp only: x_def)
  moreover have "d2 f = nat \<lfloor>x\<rfloor>"
  proof (cases "f = 0")
    case True
    then show ?thesis by (simp add: d2_def d1_def trunc_def x_def)
  next
    case False
    then have "d2 f = nat (trunc x)"
      using f by (simp add: d2_def d1_def trunc_def x_def)
    then show ?thesis
      using x by (simp add: trunc_def)
  qed
  ultimately show ?thesis
    by simp
qed

lemma d2_below_1000: "d2 f < 1000"
proof -
  define x where "x = 1000 * (\<bar>f\<bar> - of_int \<lfloor>\<bar>f\<bar>\<rfloor>)"
  have "\<bar>f\<bar> - of_int \<lfloor>\<bar>f\<bar>\<rfloor> < 1"
    by linarith
  then have "x < 1000"
    by (simp add: x_def)
  then have "\<lfloor>x\<rfloor> < 1000"
    by (simp add: floor_less_iff)
  then have "nat \<lfloor>x\<rfloor> < 1000"
    by linarith
  then show ?thesis
    by (simp only: d2_absolute x_def)
qed

text \<open>
  C9. The formatter prints the integer part with \<open>%d\<close> and the thousandths of the
  absolute value with \<open>%03u\<close>. The sign comes only from the integer part, which is 0
  for a value between -1 and 0: the temperature for the raw sensor value 980, which is
  -0.4, is printed as 0.400; -0.5 is printed as 0.500, as 0.5 is, and without a leading
  minus; -1.5 is printed as -1.500.
\<close>

theorem print_number_minus_half:
  "getTemperature 980 = - 0.4 \<and> print_number (getTemperature 980) = ''0.400'' \<and>
   print_number (- 0.5) = ''0.500'' \<and> print_number 0.5 = ''0.500'' \<and>
   print_number (- 1.5) = ''-1.500''"
  by code_simp

subsection \<open>The FIFO buffers\<close>

lemma push_result:
  assumes "length (B s) = 12" "length (T s) = 12"
  shows "push light_lx temp_c s =
     Some (s\<lparr>B := tl (B s) @ [light_lx], T := tl (T s) @ [temp_c],
       printed := printed s @ [Reading light_lx temp_c]\<rparr>)"
proof -
  obtain x0 x1 x2 x3 x4 x5 x6 x7 x8 x9 x10 x11
    where b: "B s = [x0, x1, x2, x3, x4, x5, x6, x7, x8, x9, x10, x11]"
    using list12 [OF assms(1)] by blast
  obtain y0 y1 y2 y3 y4 y5 y6 y7 y8 y9 y10 y11
    where t: "T s = [y0, y1, y2, y3, y4, y5, y6, y7, y8, y9, y10, y11]"
    using list12 [OF assms(2)] by blast
  show ?thesis
    by (simp add: push_def upt_12 b t rd_def wr_def)
qed

text \<open>
  C7. Whatever the two buffers of twelve hold and whatever the two new values are, the
  push leaves both buffers with twelve elements, moves the element at index \<open>n + 1\<close>
  to index \<open>n\<close> for every \<open>n\<close> from 0 to 10 and stores the new value at index 11, in
  the light buffer and in the temperature buffer; no access leaves an array.
\<close>

theorem push_window:
  assumes "length (B s) = 12" "length (T s) = 12"
  shows "\<exists>s'. push light_lx temp_c s = Some s' \<and>
     length (B s') = 12 \<and> length (T s') = 12 \<and>
     (\<forall>n \<le> 10. B s' ! n = B s ! (n + 1) \<and> T s' ! n = T s ! (n + 1)) \<and>
     B s' ! 11 = light_lx \<and> T s' ! 11 = temp_c"
proof -
  have "(tl xs @ [v]) ! n = xs ! (n + 1)" if "length xs = 12" "n \<le> 10" for xs :: "real list" and v n
    using that by (cases xs) (simp_all add: nth_append)
  moreover have "(tl xs @ [v]) ! 11 = v" if "length xs = 12" for xs :: "real list" and v
    using that by (cases xs) (simp_all add: nth_append)
  ultimately show ?thesis
    using assms by (simp add: push_result)
qed

theorem push_window_witness:
  "length (B sample_state) = 12 \<and> length (T sample_state) = 12 \<and>
   (\<exists>s'. push 13 26 sample_state = Some s' \<and> B s' ! 0 = 2 \<and> T s' ! 10 = 24 \<and>
      B s' ! 11 = 13 \<and> T s' ! 11 = 26)"
proof -
  have len: "length (B sample_state) = 12" "length (T sample_state) = 12"
    by (simp_all add: sample_state_def)
  obtain s' where "push 13 26 sample_state = Some s'"
    "\<forall>n \<le> 10. B s' ! n = B sample_state ! (n + 1) \<and> T s' ! n = T sample_state ! (n + 1)"
    "B s' ! 11 = 13" "T s' ! 11 = 26"
    using push_window [OF len, of 13 26] by blast
  moreover have "B sample_state ! (0 + 1) = 2" "T sample_state ! (10 + 1) = 24"
    by (simp_all add: sample_state_def)
  ultimately show ?thesis
    using len by (metis order.refl zero_le_numeral)
qed

subsection \<open>Activity measurement and aggregation\<close>

lemma standard_deviation_result:
  assumes "length (B s) = 12"
  shows "standard_deviation s =
     Some (s\<lparr>Sum := sum_list (B s), Mean := sum_list (B s) / 12,
       SumofDistSquares := squared_deviations (B s),
       StdDev := sqrt_c (squared_deviations (B s))\<rparr>)"
proof -
  obtain x0 x1 x2 x3 x4 x5 x6 x7 x8 x9 x10 x11
    where b: "B s = [x0, x1, x2, x3, x4, x5, x6, x7, x8, x9, x10, x11]"
    using list12 [OF assms(1)] by blast
  show ?thesis
    by (simp add: standard_deviation_def upt_12 b squared_deviations_def Let_def add.assoc
        power2_eq_square)
qed

text \<open>What lines 245-261 leave in \<open>X\<close> for a number \<open>c\<close> of aggregated elements.\<close>

lemma aggregate_result:
  assumes "length (B s) = 12" "length (X s) = 12"
  shows "aggregate s = Some (s\<lparr>X :=
     (if AggrElementsCount s = 1 then (X s)[0 := sum_list (B s) / 12]
      else if AggrElementsCount s = 3 then
        (X s)[0 := sum_list (take 4 (B s)) / 4, 1 := sum_list (take 4 (drop 4 (B s))) / 4,
              2 := sum_list (drop 8 (B s)) / 4]
      else if AggrElementsCount s = 12 then B s else X s)\<rparr>)"
proof -
  obtain x0 x1 x2 x3 x4 x5 x6 x7 x8 x9 x10 x11
    where b: "B s = [x0, x1, x2, x3, x4, x5, x6, x7, x8, x9, x10, x11]"
    using list12 [OF assms(1)] by blast
  obtain y0 y1 y2 y3 y4 y5 y6 y7 y8 y9 y10 y11
    where x: "X s = [y0, y1, y2, y3, y4, y5, y6, y7, y8, y9, y10, y11]"
    using list12 [OF assms(2)] by blast
  show ?thesis
    by (simp add: aggregate_def upt_12 b x rd_def wr_def add.assoc)
qed

lemma activity_measurement_result:
  assumes "length (B s) = 12" "length (X s) = 12"
  shows "activity_measurement s = Some
     (let sd = sqrt_c (squared_deviations (B s));
          c = classify sd;
          x = (if c = 1 then (X s)[0 := sum_list (B s) / 12]
               else if c = 3 then
                 (X s)[0 := sum_list (take 4 (B s)) / 4, 1 := sum_list (take 4 (drop 4 (B s))) / 4,
                       2 := sum_list (drop 8 (B s)) / 4]
               else B s)
      in s\<lparr>Sum := sum_list (B s), Mean := sum_list (B s) / 12,
           SumofDistSquares := squared_deviations (B s), StdDev := sd,
           AggrElementsCount := c, X := x,
           printed := printed s @ [Measurement (B s) sd c (take (nat c) x)]\<rparr>)"
proof -
  have "classify sd = 1 \<or> classify sd = 3 \<or> classify sd = 12" for sd
    by (simp add: classify_def)
  then have "classify (sqrt_c (squared_deviations (B s))) = 1
      \<or> classify (sqrt_c (squared_deviations (B s))) = 3
      \<or> classify (sqrt_c (squared_deviations (B s))) = 12"
    by blast
  then show ?thesis
    using assms
    by (elim disjE)
      (simp_all add: activity_measurement_def standard_deviation_result aggregate_result Let_def)
qed

lemma squared_deviations_nonneg: "0 \<le> squared_deviations w"
  unfolding squared_deviations_def Let_def by (rule sum_list_nonneg) auto

text \<open>
  C1. For every light window of twelve, the activity measurement computes the mean as
  the sum of the window divided by 12 and the sum of the squared deviations from that
  mean, and the dispersion measure it computes and reports is the program's square root
  of that sum, which is not divided by the number of elements. The root is the one
  Newton's method gives: the first guess from the starting guess 10, among the first
  fifty, whose square is within 0.001 of the sum, or the fiftieth guess; it is
  positive, and its square is within 0.001 of the sum unless all fifty iterations were
  used.
\<close>

theorem standard_deviation_formula:
  assumes "length (B s) = 12" "length (X s) = 12"
  shows "\<exists>s' m. activity_measurement s = Some s' \<and>
     Mean s' = sum_list (B s) / 12 \<and>
     SumofDistSquares s' = (\<Sum>x\<leftarrow>B s. (x - Mean s')\<^sup>2) \<and>
     StdDev s' = sqrt_c (\<Sum>x\<leftarrow>B s. (x - Mean s')\<^sup>2) \<and>
     1 \<le> m \<and> m \<le> 50 \<and> StdDev s' = newton (SumofDistSquares s') m \<and> 0 < StdDev s' \<and>
     (\<forall>p. 1 \<le> p \<and> p < m \<longrightarrow>
        \<not> within_tolerance (SumofDistSquares s') (newton (SumofDistSquares s') p)) \<and>
     (\<bar>StdDev s' * StdDev s' - SumofDistSquares s'\<bar> < 0.001 \<or> m = 50) \<and>
     (\<exists>c x. last (printed s') = Measurement (B s) (StdDev s') c x)"
proof -
  define S where "S = squared_deviations (B s)"
  obtain m where m: "1 \<le> m" "m \<le> 50" "sqrt_c S = newton S m" "0 < sqrt_c S"
    "\<forall>p. 1 \<le> p \<and> p < m \<longrightarrow> \<not> within_tolerance S (newton S p)"
    "within_tolerance S (sqrt_c S) \<or> m = 50"
    using sqrt_c_first_iterate [of S] squared_deviations_nonneg [of "B s"] unfolding S_def
    by blast
  obtain s' where s': "activity_measurement s = Some s'" "Mean s' = sum_list (B s) / 12"
    "SumofDistSquares s' = S" "StdDev s' = sqrt_c S"
    "\<exists>c x. last (printed s') = Measurement (B s) (StdDev s') c x"
    using assms by (simp add: activity_measurement_result Let_def S_def)
  have S: "S = (\<Sum>x\<leftarrow>B s. (x - Mean s')\<^sup>2)"
    by (simp add: S_def squared_deviations_def s'(2))
  have tol: "\<bar>StdDev s' * StdDev s' - SumofDistSquares s'\<bar> < 0.001 \<or> m = 50"
    using m(6) by (simp add: within_tolerance_def s'(3,4))
  show ?thesis
  proof (intro exI [of _ s'] exI [of _ m] conjI)
    show "activity_measurement s = Some s'" by (rule s'(1))
    show "Mean s' = sum_list (B s) / 12" by (rule s'(2))
    show "SumofDistSquares s' = (\<Sum>x\<leftarrow>B s. (x - Mean s')\<^sup>2)"
      using s'(3) S by simp
    show "StdDev s' = sqrt_c (\<Sum>x\<leftarrow>B s. (x - Mean s')\<^sup>2)"
      using s'(4) S by simp
    show "1 \<le> m" "m \<le> 50" by (rule m)+
    show "StdDev s' = newton (SumofDistSquares s') m"
      using m(3) by (simp add: s'(3,4))
    show "0 < StdDev s'" using m(4) by (simp add: s'(4))
    show "\<forall>p. 1 \<le> p \<and> p < m \<longrightarrow>
        \<not> within_tolerance (SumofDistSquares s') (newton (SumofDistSquares s') p)"
      using m(5) by (simp add: s'(3))
    show "\<bar>StdDev s' * StdDev s' - SumofDistSquares s'\<bar> < 0.001 \<or> m = 50" by (rule tol)
    show "\<exists>c x. last (printed s') = Measurement (B s) (StdDev s') c x" by (rule s'(5))
  qed
qed

text \<open>
  C4. For every light window of twelve the number of aggregated elements is decided by
  the standard deviation: below 100 it is 1 and the output is the mean of the twelve
  elements; from 100 and below 1000 it is 3 and the outputs are the means of the
  elements 0-3, 4-7 and 8-11; from 1000 it is 12 and the outputs are the twelve elements
  unchanged. The report prints that many elements of \<open>X\<close>. At the boundaries,
  99.999 gives 1, 100.0 and 999.999 give 3, and 1000.0 gives 12.
\<close>

theorem aggregation_tiers:
  assumes "length (B s) = 12" "length (X s) = 12"
  shows "\<exists>s'. activity_measurement s = Some s' \<and>
     AggrElementsCount s' = classify (StdDev s') \<and>
     (StdDev s' < 100 \<longrightarrow> AggrElementsCount s' = 1 \<and>
        take 1 (X s') = [sum_list (B s) / 12]) \<and>
     (100 \<le> StdDev s' \<and> StdDev s' < 1000 \<longrightarrow> AggrElementsCount s' = 3 \<and>
        take 3 (X s') = [sum_list (take 4 (B s)) / 4, sum_list (take 4 (drop 4 (B s))) / 4,
                         sum_list (drop 8 (B s)) / 4]) \<and>
     (1000 \<le> StdDev s' \<longrightarrow> AggrElementsCount s' = 12 \<and> take 12 (X s') = B s) \<and>
     last (printed s') = Measurement (B s) (StdDev s') (AggrElementsCount s')
        (take (nat (AggrElementsCount s')) (X s')) \<and>
     classify 99.999 = 1 \<and> classify 100.0 = 3 \<and> classify 999.999 = 3 \<and> classify 1000.0 = 12"
proof -
  obtain y0 y1 y2 y3 y4 y5 y6 y7 y8 y9 y10 y11
    where x: "X s = [y0, y1, y2, y3, y4, y5, y6, y7, y8, y9, y10, y11]"
    using list12 [OF assms(2)] by blast
  show ?thesis
  proof -
    define sd where "sd = sqrt_c (squared_deviations (B s))"
    consider "sd < 100" | "100 \<le> sd" "sd < 1000" | "1000 \<le> sd"
      by linarith
    then show ?thesis
    proof cases
      case 1
      then have "classify sd = 1" by (simp add: classify_def)
      then show ?thesis
        using assms 1 by (simp add: activity_measurement_result Let_def sd_def [symmetric] x)
          (simp add: classify_def)
    next
      case 2
      then have "classify sd = 3" by (simp add: classify_def)
      then show ?thesis
        using assms 2 by (simp add: activity_measurement_result Let_def sd_def [symmetric] x)
          (simp add: classify_def)
    next
      case 3
      then have "classify sd = 12" by (simp add: classify_def)
      then show ?thesis
        using assms 3 by (simp add: activity_measurement_result Let_def sd_def [symmetric] x)
          (simp add: classify_def)
    qed
  qed
qed

lemma sample_sd: "squared_deviations (B sample_state) = 143"
  by (simp add: sample_state_def squared_deviations_def power2_eq_square)

lemma sample_sqrt: "sqrt_c 143 = 27024241201 / 2259880560"
  by (simp add: sqrt_c_def sqrt_loop_step within_tolerance_def)

lemma newton_143:
  "newton 143 1 = 243 / 20" "newton 143 2 = 116249 / 9720"
  "newton 143 3 = 27024241201 / 2259880560"
  by (simp_all add: eval_nat_numeral)

theorem standard_deviation_formula_witness:
  "length (B sample_state) = 12 \<and> length (X sample_state) = 12 \<and>
   (\<exists>s'. activity_measurement sample_state = Some s' \<and> Mean s' = 13 / 2 \<and>
      SumofDistSquares s' = 143 \<and> StdDev s' = newton 143 3 \<and>
      StdDev s' = 27024241201 / 2259880560 \<and>
      \<bar>StdDev s' * StdDev s' - 143\<bar> < 0.001)"
proof -
  have len: "length (B sample_state) = 12" "length (X sample_state) = 12"
    by (simp_all add: sample_state_def initial_state_def)
  obtain s' m where s': "activity_measurement sample_state = Some s'"
    "Mean s' = sum_list (B sample_state) / 12"
    "SumofDistSquares s' = (\<Sum>x\<leftarrow>B sample_state. (x - Mean s')\<^sup>2)"
    and m: "1 \<le> m" "StdDev s' = newton (SumofDistSquares s') m"
    "\<forall>p. 1 \<le> p \<and> p < m \<longrightarrow>
        \<not> within_tolerance (SumofDistSquares s') (newton (SumofDistSquares s') p)"
    "\<bar>StdDev s' * StdDev s' - SumofDistSquares s'\<bar> < 0.001 \<or> m = 50"
    using standard_deviation_formula [OF len] by blast
  have mean: "Mean s' = 13 / 2"
    using s'(2) by (simp add: sample_state_def)
  have sq: "SumofDistSquares s' = 143"
    unfolding s'(3) mean by (simp add: sample_state_def power2_eq_square)
  have w3: "within_tolerance 143 (newton 143 3)"
    by (simp add: newton_143 within_tolerance_def)
  have w1: "\<not> within_tolerance 143 (newton 143 1)"
    and w2: "\<not> within_tolerance 143 (newton 143 2)"
    by (simp_all add: newton_143 within_tolerance_def)
  have "\<not> 3 < m"
    using m(3) w3 unfolding sq by auto
  moreover have "m \<noteq> 1" "m \<noteq> 2"
    using m(2,4) w1 w2 unfolding sq by (auto simp: within_tolerance_def)
  ultimately have "m = 3"
    using m(1) by linarith
  then have sd: "StdDev s' = newton 143 3"
    using m(2) sq by simp
  have tol: "\<bar>StdDev s' * StdDev s' - 143\<bar> < 0.001"
    using w3 unfolding sd within_tolerance_def .
  have val: "StdDev s' = 27024241201 / 2259880560"
    unfolding sd by (rule newton_143)
  show ?thesis
    using len s'(1) mean sq sd val tol by blast
qed

theorem aggregation_tiers_witness:
  "length (B sample_state) = 12 \<and> length (X sample_state) = 12 \<and>
   (\<exists>s'. activity_measurement sample_state = Some s' \<and> StdDev s' = 27024241201 / 2259880560 \<and>
      AggrElementsCount s' = 1 \<and> take 1 (X s') = [13 / 2])"
proof -
  have len: "length (B sample_state) = 12" "length (X sample_state) = 12"
    by (simp_all add: sample_state_def initial_state_def)
  obtain s' where s': "activity_measurement sample_state = Some s'"
    "StdDev s' < 100 \<longrightarrow> AggrElementsCount s' = 1 \<and>
        take 1 (X s') = [sum_list (B sample_state) / 12]"
    using aggregation_tiers [OF len] by blast
  have "StdDev s' = 27024241201 / 2259880560"
    using s'(1) len by (auto simp: activity_measurement_result Let_def sample_sd sample_sqrt)
  then show ?thesis
    using len s' by (simp add: sample_state_def)
qed

subsection \<open>The median\<close>

lemma for_loop_append:
  "for_loop (ms @ ns) body s =
     (case for_loop ms body s of None \<Rightarrow> None | Some s' \<Rightarrow> for_loop ns body s')"
  by (induction ms arbitrary: s) (auto split: option.splits)

lemma for_loop_upt_rule_aux:
  "a \<le> b \<Longrightarrow> P a s \<Longrightarrow>
   (\<forall>n s. a \<le> n \<and> n < b \<and> P n s \<longrightarrow> (\<exists>s'. body n s = Some s' \<and> P (Suc n) s')) \<Longrightarrow>
   \<exists>s'. for_loop [a..<b] body s = Some s' \<and> P b s'"
proof (induction b)
  case 0
  then show ?case by simp
next
  case (Suc b)
  show ?case
  proof (cases "a = Suc b")
    case True
    then show ?thesis using Suc.prems by simp
  next
    case False
    then have ab: "a \<le> b" using Suc.prems by simp
    then obtain s1 where s1: "for_loop [a..<b] body s = Some s1" "P b s1"
      using Suc.IH Suc.prems by (metis less_Suc_eq)
    obtain s2 where "body b s1 = Some s2" "P (Suc b) s2"
      using Suc.prems(3) ab s1(2) by blast
    then show ?thesis
      using ab s1 by (simp add: for_loop_append)
  qed
qed

lemma for_loop_upt_rule:
  assumes "a \<le> b" "P a s"
    and "\<And>n s. a \<le> n \<Longrightarrow> n < b \<Longrightarrow> P n s \<Longrightarrow> \<exists>s'. body n s = Some s' \<and> P (Suc n) s'"
  shows "\<exists>s'. for_loop [a..<b] body s = Some s' \<and> P b s'"
  using for_loop_upt_rule_aux [of a b P s body] assms by blast

lemma exchange_result:
  assumes "m < length TS" "n < length TS"
  shows "exchange m n TS =
     Some (if TS ! m > TS ! n then TS[m := TS ! n, n := TS ! m] else TS)"
  using assms by (simp add: exchange_def rd_def wr_def)

lemma inner_inv_start: "inner_inv N m TS (Suc m) TS"
  by (auto simp: inner_inv_def)

lemma inner_inv_step:
  assumes "m < n" "n < N" "N \<le> length TS0" "inner_inv N m TS0 n TS"
  shows "\<exists>TS'. exchange m n TS = Some TS' \<and> inner_inv N m TS0 (Suc n) TS'"
proof -
  have len: "length TS = length TS0" "m < length TS" "n < length TS"
    using assms by (auto simp: inner_inv_def)
  show ?thesis
  proof (cases "TS ! m > TS ! n")
    case False
    then have "exchange m n TS = Some TS"
      using len by (simp add: exchange_result)
    moreover have "inner_inv N m TS0 (Suc n) TS"
      using assms(4) False by (auto simp: inner_inv_def less_Suc_eq)
    ultimately show ?thesis by blast
  next
    case True
    define TS' where "TS' = TS[m := TS ! n, n := TS ! m]"
    have ex: "exchange m n TS = Some TS'"
      using len True by (simp add: exchange_result TS'_def)
    have nth: "TS' ! p = (if p = n then TS ! m else if p = m then TS ! n else TS ! p)" for p
      using len assms(1) by (auto simp: TS'_def nth_list_update)
    have 1: "length TS' = length TS0" using len by (simp add: TS'_def)
    have 2: "mset TS' = mset TS0"
      using assms(4) len mset_swap [of n TS m] by (simp add: TS'_def inner_inv_def)
    have 3: "\<forall>p. p < m \<or> N \<le> p \<longrightarrow> TS' ! p = TS0 ! p"
      using assms by (auto simp: nth inner_inv_def)
    have 4: "\<forall>p. m \<le> p \<and> p < N \<longrightarrow> (\<exists>q. m \<le> q \<and> q < N \<and> TS' ! p = TS0 ! q)"
      using assms by (auto simp: nth inner_inv_def)
    have 5: "\<forall>p. m < p \<and> p < Suc n \<longrightarrow> TS' ! m \<le> TS' ! p"
      using assms True by (fastforce simp: nth inner_inv_def less_Suc_eq)
    show ?thesis
      using ex 1 2 3 4 5 by (simp add: inner_inv_def)
  qed
qed

lemma inner_loop:
  assumes "m < N" "N \<le> length TS"
  shows "\<exists>TS'. for_loop [m + 1..<N] (exchange m) TS = Some TS' \<and> inner_inv N m TS N TS'"
proof (rule for_loop_upt_rule [where P = "inner_inv N m TS"])
  show "m + 1 \<le> N" using assms by simp
  show "inner_inv N m TS (m + 1) TS" using inner_inv_start by simp
  show "\<exists>s'. exchange m n s = Some s' \<and> inner_inv N m TS (Suc n) s'"
    if "m + 1 \<le> n" "n < N" "inner_inv N m TS n s" for n s
    using inner_inv_step [of m n N TS s] that assms by simp
qed

lemma outer_inv_step:
  assumes "outer_inv N TS0 m TS" "inner_inv N m TS N TS'"
  shows "outer_inv N TS0 (Suc m) TS'"
proof -
  have o1: "length TS = length TS0" and o2: "mset TS = mset TS0"
    and o3: "\<And>p. N \<le> p \<Longrightarrow> TS ! p = TS0 ! p"
    and o4: "\<And>p q. p < m \<Longrightarrow> p < q \<Longrightarrow> q < N \<Longrightarrow> TS ! p \<le> TS ! q"
    using assms(1) unfolding outer_inv_def by blast+
  have i1: "length TS' = length TS" and i2: "mset TS' = mset TS"
    and i3: "\<And>p. p < m \<or> N \<le> p \<Longrightarrow> TS' ! p = TS ! p"
    and i4: "\<And>p. m \<le> p \<Longrightarrow> p < N \<Longrightarrow> \<exists>q. m \<le> q \<and> q < N \<and> TS' ! p = TS ! q"
    and i5: "\<And>p. m < p \<Longrightarrow> p < N \<Longrightarrow> TS' ! m \<le> TS' ! p"
    using assms(2) unfolding inner_inv_def by blast+
  have "TS' ! p \<le> TS' ! q" if pq: "p < Suc m" "p < q" "q < N" for p q
  proof (cases "p = m")
    case True
    then show ?thesis using i5 pq by simp
  next
    case False
    then have pm: "p < m" using pq by simp
    then have p: "TS' ! p = TS ! p" using i3 by simp
    show ?thesis
    proof (cases "q < m")
      case True
      then have "TS' ! q = TS ! q" using i3 by simp
      then show ?thesis using p o4 [OF pm pq(2,3)] by simp
    next
      case False
      then have "m \<le> q" by simp
      then obtain r where r: "m \<le> r" "r < N" "TS' ! q = TS ! r"
        using i4 pq(3) by blast
      have "p < r" using pm r(1) by simp
      then show ?thesis using p r o4 [OF pm _ r(2)] by simp
    qed
  qed
  moreover have "length TS' = length TS0" "mset TS' = mset TS0"
    using o1 o2 i1 i2 by simp_all
  moreover have "\<forall>p \<ge> N. TS' ! p = TS0 ! p"
    using o3 i3 by simp
  ultimately show ?thesis
    unfolding outer_inv_def by blast
qed

lemma sort_array_inv:
  assumes "n \<le> int (length TS)"
  shows "\<exists>TS'. sort_array TS n = Some TS' \<and> outer_inv (nat n) TS (nat (n - 1)) TS'"
  unfolding sort_array_def
proof (rule for_loop_upt_rule [where P = "outer_inv (nat n) TS"])
  show "0 \<le> nat (n - 1)" by simp
  show "outer_inv (nat n) TS 0 TS" by (simp add: outer_inv_def)
  show "\<exists>s'. for_loop [m + 1..<nat n] (exchange m) s = Some s' \<and> outer_inv (nat n) TS (Suc m) s'"
    if "0 \<le> m" "m < nat (n - 1)" "outer_inv (nat n) TS m s" for m s
  proof -
    have "m < nat n" "nat n \<le> length s"
      using that assms by (auto simp: outer_inv_def)
    then obtain s' where s': "for_loop [m + 1..<nat n] (exchange m) s = Some s'"
      "inner_inv (nat n) m s (nat n) s'"
      using inner_loop [of m "nat n" s] by blast
    have "outer_inv (nat n) TS (Suc m) s'"
      using that(3) s'(2) by (rule outer_inv_step)
    then show ?thesis
      using s'(1) by simp
  qed
qed

lemma outer_inv_sorted:
  assumes "outer_inv N TS (N - 1) TS'" "N \<le> length TS"
  shows "TS' = sort (take N TS) @ drop N TS"
proof -
  have len: "length TS' = length TS" and ms: "mset TS' = mset TS"
    and rest: "\<forall>p \<ge> N. TS' ! p = TS ! p"
    and le: "\<forall>p q. p < N - 1 \<and> p < q \<and> q < N \<longrightarrow> TS' ! p \<le> TS' ! q"
    using assms(1) by (auto simp: outer_inv_def)
  have dr: "drop N TS' = drop N TS"
    using len rest by (auto intro: nth_equalityI)
  have "mset (take N TS') + mset (drop N TS') = mset (take N TS) + mset (drop N TS)"
    using ms by (metis append_take_drop_id mset_append)
  then have "mset (take N TS') = mset (take N TS)"
    using dr by simp
  moreover have "sorted (take N TS')"
    using le by (auto simp: sorted_iff_nth_mono_less)
  ultimately have "sort (take N TS) = take N TS'"
    by (rule properties_for_sort)
  then show ?thesis
    using dr by (metis append_take_drop_id)
qed

lemma sort_array_result:
  assumes "n \<le> int (length TS)"
  shows "sort_array TS n = Some (sort (take (nat n) TS) @ drop (nat n) TS)"
proof -
  obtain TS' where "sort_array TS n = Some TS'" "outer_inv (nat n) TS (nat (n - 1)) TS'"
    using sort_array_inv [OF assms] by blast
  moreover have "nat (n - 1) = nat n - 1" by simp
  ultimately show ?thesis
    using outer_inv_sorted [of "nat n" TS TS'] assms by simp
qed

lemma sdiv_smod_nonneg:
  "0 \<le> n \<Longrightarrow> n sdiv 2 = n div (2::int)" "0 \<le> n \<Longrightarrow> n smod 2 = n mod (2::int)"
  by (simp_all add: signed_divide_int_def signed_modulo_int_def sgn_if)

lemma getMedian_result:
  assumes "1 \<le> n" "n \<le> int (length TS)"
  shows "getMedian TS n =
     Some (median_of_sorted (sort (take (nat n) TS)), sort (take (nat n) TS) @ drop (nat n) TS)"
proof -
  define ys where "ys = sort (take (nat n) TS)"
  have len: "length ys = nat n"
    using assms by (simp add: ys_def)
  have n: "n = int (length ys)" "0 \<le> n"
    using assms len by simp_all
  have half: "length ys div 2 < length ys"
    using assms len by simp
  have h: "n div 2 = int (length ys div 2)"
    using n(1) by simp
  have r1: "rd (ys @ drop (nat n) TS) (n div 2) = Some (ys ! (length ys div 2))"
    unfolding h using half by (simp add: nth_append)
  have r2: "rd (ys @ drop (nat n) TS) (n div 2 - 1) = Some (ys ! (length ys div 2 - 1))"
    if "n mod 2 = 0"
  proof -
    have "2 \<le> n" using that assms(1) by presburger
    then have "2 \<le> length ys" using len by simp
    then have "1 \<le> length ys div 2" by simp
    then have "n div 2 - 1 = int (length ys div 2 - 1)"
      unfolding h by simp
    moreover have "length ys div 2 - 1 < length ys" using half by simp
    ultimately show ?thesis
      by (simp add: nth_append)
  qed
  have par: "(n mod 2 = 0) = (length ys mod 2 = 0)"
    using n(1) by presburger
  show ?thesis
    using assms r1 r2 par
    by (simp add: getMedian_def sort_array_result sdiv_smod_nonneg n(2) ys_def [symmetric]
        median_of_sorted_def)
qed

text \<open>
  C5. For every array and every count from 1 to the size of the array, the median routine
  leaves the first count elements sorted ascending (the rest untouched) and returns, for
  an even count, the average of the sorted elements at indices count/2 - 1 and count/2
  and, for an odd count, the sorted element at index count/2. The median of 1, 2, 3, 4
  is 2.5 and the median of 1, 2, 3 is 2. Two arrays that are permutations of each other
  give the same result.
\<close>

theorem getMedian_sorted_middle:
  "(\<forall>TS n. 1 \<le> n \<and> n \<le> int (length TS) \<longrightarrow>
      (\<exists>median TS'. getMedian TS n = Some (median, TS') \<and>
         take (nat n) TS' = sort (take (nat n) TS) \<and> drop (nat n) TS' = drop (nat n) TS \<and>
         median = (if n mod 2 = 0 then (TS' ! nat (n div 2 - 1) + TS' ! nat (n div 2)) / 2
                   else TS' ! nat (n div 2)))) \<and>
   getMedian [1, 2, 3, 4] 4 = Some (2.5, [1, 2, 3, 4]) \<and>
   getMedian [1, 2, 3] 3 = Some (2, [1, 2, 3]) \<and>
   (\<forall>xs ys. xs \<noteq> [] \<and> mset xs = mset ys \<longrightarrow>
      getMedian xs (int (length xs)) = getMedian ys (int (length ys)))"
proof (intro conjI allI impI)
  fix TS :: "real list" and n :: int
  assume "1 \<le> n \<and> n \<le> int (length TS)"
  then have a: "1 \<le> n" "n \<le> int (length TS)"
    by simp_all
  define ys where "ys = sort (take (nat n) TS)"
  have len: "length ys = nat n"
    using a by (simp add: ys_def)
  have "nat (n div 2) < nat n"
    using a by simp
  then have 1: "(ys @ drop (nat n) TS) ! nat (n div 2) = ys ! (length ys div 2)"
    using a len by (simp add: nth_append nat_div_distrib)
  have "nat (n div 2 - 1) < nat n"
    using a by simp
  moreover have "nat (n div 2 - 1) = length ys div 2 - 1"
    using a len by (simp add: nat_diff_distrib nat_div_distrib)
  ultimately have 2: "(ys @ drop (nat n) TS) ! nat (n div 2 - 1) = ys ! (length ys div 2 - 1)"
    using len by (simp add: nth_append)
  have par: "(n mod 2 = 0) = (length ys mod 2 = 0)"
  proof -
    have "n = int (length ys)" using a len by simp
    then show ?thesis by presburger
  qed
  show "\<exists>median TS'. getMedian TS n = Some (median, TS') \<and>
         take (nat n) TS' = sort (take (nat n) TS) \<and> drop (nat n) TS' = drop (nat n) TS \<and>
         median = (if n mod 2 = 0 then (TS' ! nat (n div 2 - 1) + TS' ! nat (n div 2)) / 2
                   else TS' ! nat (n div 2))"
    using a len 1 2 par
    by (simp add: getMedian_result median_of_sorted_def ys_def [symmetric])
next
  show "getMedian [1, 2, 3, 4] 4 = Some (2.5, [1, 2, 3, 4])"
    by (simp add: getMedian_result median_of_sorted_def)
next
  show "getMedian [1, 2, 3] 3 = Some (2, [1, 2, 3])"
    by (simp add: getMedian_result median_of_sorted_def)
next
  fix xs ys :: "real list"
  assume a: "xs \<noteq> [] \<and> mset xs = mset ys"
  then have "length xs = length ys" "sort xs = sort ys" "ys \<noteq> []"
    by (auto dest: mset_eq_length intro: properties_for_sort)
  moreover have "1 \<le> int (length xs)"
    using a by (cases xs) simp_all
  ultimately show "getMedian xs (int (length xs)) = getMedian ys (int (length ys))"
    by (simp add: getMedian_result)
qed

theorem getMedian_sorted_middle_witness:
  "(1::int) \<le> 4 \<and> 4 \<le> int (length [4, 2, 1, 3::real]) \<and>
   (\<exists>median TS'. getMedian [4, 2, 1, 3] 4 = Some (median, TS') \<and> take 4 TS' = [1, 2, 3, 4]) \<and>
   [3, 1, 2::real] \<noteq> [] \<and> mset [3, 1, 2::real] = mset [2, 3, 1] \<and>
   getMedian [3, 1, 2] 3 = getMedian [2, 3, 1] 3"
proof -
  have h: "(1::int) \<le> 4 \<and> 4 \<le> int (length [4, 2, 1, 3::real])"
    by simp
  have p: "[3, 1, 2::real] \<noteq> [] \<and> mset [3, 1, 2::real] = mset [2, 3, 1]"
    by simp
  from getMedian_sorted_middle have
    g: "\<forall>TS n. 1 \<le> n \<and> n \<le> int (length TS) \<longrightarrow>
      (\<exists>median TS'. getMedian TS n = Some (median, TS') \<and>
         take (nat n) TS' = sort (take (nat n) TS) \<and> drop (nat n) TS' = drop (nat n) TS \<and>
         median = (if n mod 2 = 0 then (TS' ! nat (n div 2 - 1) + TS' ! nat (n div 2)) / 2
                   else TS' ! nat (n div 2)))"
    and q: "\<forall>xs ys. xs \<noteq> [] \<and> mset xs = mset ys \<longrightarrow>
      getMedian xs (int (length xs)) = getMedian ys (int (length ys))"
    by blast+
  obtain median TS' where "getMedian [4, 2, 1, 3] 4 = Some (median, TS')"
    "take (nat 4) TS' = sort (take (nat 4) [4, 2, 1, 3])"
    using g [rule_format, OF h] by blast
  moreover have "getMedian [3, 1, 2] (int (length [3, 1, 2::real])) =
      getMedian [2, 3, 1] (int (length [2, 3, 1::real]))"
    using q [rule_format, OF p] .
  ultimately show ?thesis
    using h p by simp
qed

subsection \<open>The regression\<close>

lemma append_slopes_Nil: "0 \<le> slopes_count s \<Longrightarrow> append_slopes [] s = s"
  by (simp add: append_slopes_def)

lemma append_slopes_append:
  assumes "0 \<le> slopes_count s" "nat (slopes_count s) + length xs \<le> length (slopes s)"
  shows "append_slopes ys (append_slopes xs s) = append_slopes (xs @ ys) s"
  using assms by (simp add: append_slopes_def nat_add_distrib add.commute add.left_commute)

lemma append_slopes_fields [simp]:
  "B (append_slopes new s) = B s" "T (append_slopes new s) = T s"
  "slopes_count (append_slopes new s) = slopes_count s + int (length new)"
  "nat (slopes_count s) + length new \<le> length (slopes s) \<Longrightarrow>
     length (slopes (append_slopes new s)) = length (slopes s)"
  by (simp_all add: append_slopes_def)

lemma slope_step_result:
  assumes "m < length (B s)" "n < length (B s)" "m < length (T s)" "n < length (T s)"
    "0 \<le> slopes_count s"
    "B s ! m \<noteq> B s ! n \<longrightarrow> nat (slopes_count s) < length (slopes s)"
  shows "slope_step m n s = Some (append_slopes
     (if B s ! m \<noteq> B s ! n then [(T s ! n - T s ! m) / (B s ! n - B s ! m)] else []) s)"
proof (cases "B s ! m = B s ! n")
  case True
  then show ?thesis
    using assms by (simp add: slope_step_def append_slopes_Nil)
next
  case False
  then have "slopes_count s < int (length (slopes s))" "nat (slopes_count s) < length (slopes s)"
    using assms by simp_all
  then show ?thesis
    using assms False
    by (simp add: slope_step_def wr_def append_slopes_def upd_conv_take_nth_drop)
qed

lemma inner_slopes:
  assumes "length (B s) = 12" "length (T s) = 12" "m < 12" "\<forall>n \<in> set ns. n < 12"
    "0 \<le> slopes_count s"
    "nat (slopes_count s) +
       length [(T s ! n - T s ! m) / (B s ! n - B s ! m). n \<leftarrow> ns, B s ! m \<noteq> B s ! n]
     \<le> length (slopes s)"
  shows "for_loop ns (slope_step m) s = Some (append_slopes
     [(T s ! n - T s ! m) / (B s ! n - B s ! m). n \<leftarrow> ns, B s ! m \<noteq> B s ! n] s)"
  using assms
proof (induction ns arbitrary: s)
  case Nil
  then show ?case by (simp add: append_slopes_Nil)
next
  case (Cons n ns)
  define one where
    "one = (if B s ! m \<noteq> B s ! n then [(T s ! n - T s ! m) / (B s ! n - B s ! m)] else [])"
  define more where
    "more = [(T s ! n - T s ! m) / (B s ! n - B s ! m). n \<leftarrow> ns, B s ! m \<noteq> B s ! n]"
  have bound: "nat (slopes_count s) + (length one + length more) \<le> length (slopes s)"
    using Cons.prems(6) by (simp add: one_def more_def)
  have step: "slope_step m n s = Some (append_slopes one s)"
    unfolding one_def using Cons.prems bound
    by (intro slope_step_result) (auto simp: one_def)
  have "for_loop ns (slope_step m) (append_slopes one s) =
      Some (append_slopes more (append_slopes one s))"
    using Cons.IH [of "append_slopes one s"] Cons.prems(1-5) bound
    by (simp add: more_def nat_add_distrib cong del: if_weak_cong)
  moreover have "append_slopes more (append_slopes one s) = append_slopes (one @ more) s"
    using Cons.prems(5) bound by (intro append_slopes_append) simp_all
  ultimately show ?case
    using step by (simp add: one_def more_def)
qed

lemma row_loop:
  assumes "length (B s) = 12" "length (T s) = 12" "m < 12" "0 \<le> slopes_count s"
    "nat (slopes_count s) + length (row_slopes (B s) (T s) m) \<le> length (slopes s)"
  shows "for_loop [m + 1..<12] (slope_step m) s =
     Some (append_slopes (row_slopes (B s) (T s) m) s)"
  using inner_slopes [of s m "[m + 1..<12]"] assms by (simp add: row_slopes_def)

lemma outer_slopes:
  assumes "length (B s) = 12" "length (T s) = 12" "\<forall>m \<in> set ms. m < 12"
    "0 \<le> slopes_count s"
    "nat (slopes_count s) + length (concat (map (row_slopes (B s) (T s)) ms))
     \<le> length (slopes s)"
  shows "for_loop ms (\<lambda>m. for_loop [m + 1..<12] (slope_step m)) s =
     Some (append_slopes (concat (map (row_slopes (B s) (T s)) ms)) s)"
  using assms
proof (induction ms arbitrary: s)
  case Nil
  then show ?case by (simp add: append_slopes_Nil)
next
  case (Cons m ms)
  define one where "one = row_slopes (B s) (T s) m"
  define more where "more = concat (map (row_slopes (B s) (T s)) ms)"
  have bound: "nat (slopes_count s) + (length one + length more) \<le> length (slopes s)"
    using Cons.prems(5) by (simp add: one_def more_def)
  have step: "for_loop [m + 1..<12] (slope_step m) s = Some (append_slopes one s)"
    unfolding one_def using Cons.prems bound
    by (intro row_loop) (auto simp: one_def)
  have "for_loop ms (\<lambda>m. for_loop [m + 1..<12] (slope_step m)) (append_slopes one s) =
      Some (append_slopes more (append_slopes one s))"
    using Cons.IH [of "append_slopes one s"] Cons.prems(1-4) bound
    by (simp add: more_def nat_add_distrib)
  moreover have "append_slopes more (append_slopes one s) = append_slopes (one @ more) s"
    using Cons.prems(4) bound by (intro append_slopes_append) simp_all
  ultimately show ?case
    using step by (simp add: one_def more_def)
qed

lemma length_row_slopes: "length (row_slopes light temp m) \<le> 11 - m"
proof -
  have "length (concat (map (\<lambda>j. if p j then [f j] else []) js)) \<le> length js"
    for p :: "nat \<Rightarrow> bool" and f :: "nat \<Rightarrow> real" and js
    by (induction js) auto
  from this [of _ _ "[m + 1..<12]"] show ?thesis
    by (simp add: row_slopes_def)
qed

lemma length_pair_slopes: "length (pair_slopes light temp) \<le> 66"
proof -
  have "length (pair_slopes light temp) =
      (\<Sum>m\<leftarrow>[0..<12]. length (row_slopes light temp m))"
    by (simp add: pair_slopes_def length_concat comp_def)
  also have "\<dots> \<le> (\<Sum>m\<leftarrow>[0..<12]. 11 - m)"
    by (intro sum_list_mono length_row_slopes)
  also have "\<dots> = 66"
    by (simp add: upt_12)
  finally show ?thesis .
qed

lemma collect_slopes_result:
  assumes "length (B s) = 12" "length (T s) = 12" "66 \<le> length (slopes s)"
  shows "collect_slopes s =
     Some (s\<lparr>slopes := pair_slopes (B s) (T s) @
                 drop (length (pair_slopes (B s) (T s))) (slopes s),
            slopes_count := int (length (pair_slopes (B s) (T s)))\<rparr>)"
proof -
  have "collect_slopes s =
      Some (append_slopes (pair_slopes (B s) (T s)) (s\<lparr>slopes_count := 0\<rparr>))"
    unfolding collect_slopes_def pair_slopes_def
    using outer_slopes [of "s\<lparr>slopes_count := 0\<rparr>" "[0..<12]"] assms
      length_pair_slopes [of "B s" "T s"]
    by (simp add: pair_slopes_def)
  then show ?thesis
    by (simp add: append_slopes_def)
qed

lemma getMedian_0: "getMedian TS 0 = None"
  by (simp add: getMedian_def sort_array_def rd_def)

lemma getMedian_all:
  assumes "xs \<noteq> []"
  shows "getMedian (xs @ rest) (int (length xs)) = Some (median_of_sorted (sort xs), sort xs @ rest)"
proof -
  have "1 \<le> int (length xs)"
    using assms by (cases xs) simp_all
  then show ?thesis
    by (simp add: getMedian_result)
qed

lemma compute_offsets_result:
  assumes "length (B s) = 12" "length (T s) = 12" "length (offsets s) = 12"
  shows "compute_offsets s =
     Some (s\<lparr>offsets := offsets_spec (B s) (T s) (median_slope s)\<rparr>)"
proof -
  obtain x0 x1 x2 x3 x4 x5 x6 x7 x8 x9 x10 x11
    where b: "B s = [x0, x1, x2, x3, x4, x5, x6, x7, x8, x9, x10, x11]"
    using list12 [OF assms(1)] by blast
  obtain y0 y1 y2 y3 y4 y5 y6 y7 y8 y9 y10 y11
    where t: "T s = [y0, y1, y2, y3, y4, y5, y6, y7, y8, y9, y10, y11]"
    using list12 [OF assms(2)] by blast
  obtain z0 z1 z2 z3 z4 z5 z6 z7 z8 z9 z10 z11
    where z: "offsets s = [z0, z1, z2, z3, z4, z5, z6, z7, z8, z9, z10, z11]"
    using list12 [OF assms(3)] by blast
  show ?thesis
    by (simp add: compute_offsets_def upt_12 b t z offsets_spec_def)
qed

lemma estimate_temperatures_result:
  assumes "length (B s) = 12" "length (EstT s) = 12"
  shows "estimate_temperatures s =
     Some (s\<lparr>EstT := predicted_spec (B s) (median_slope s) (median_offset s)\<rparr>)"
proof -
  obtain x0 x1 x2 x3 x4 x5 x6 x7 x8 x9 x10 x11
    where b: "B s = [x0, x1, x2, x3, x4, x5, x6, x7, x8, x9, x10, x11]"
    using list12 [OF assms(1)] by blast
  obtain z0 z1 z2 z3 z4 z5 z6 z7 z8 z9 z10 z11
    where z: "EstT s = [z0, z1, z2, z3, z4, z5, z6, z7, z8, z9, z10, z11]"
    using list12 [OF assms(2)] by blast
  show ?thesis
    by (simp add: estimate_temperatures_def upt_12 b z predicted_spec_def)
qed

lemma regression_flat:
  assumes "sized s" "pair_slopes (B s) (T s) = []"
  shows "regression_analysis s = None"
  using assms
  by (simp add: regression_analysis_def sized_def collect_slopes_result getMedian_0)

lemma regression_result:
  assumes "sized s" "pair_slopes (B s) (T s) \<noteq> []"
  shows "regression_analysis s = Some
     (let ps = pair_slopes (B s) (T s);
          ms = median_of_sorted (sort ps);
          offs = offsets_spec (B s) (T s) ms;
          mo = median_of_sorted (sort offs);
          est = predicted_spec (B s) ms mo
      in s\<lparr>slopes := sort ps @ drop (length ps) (slopes s), slopes_count := int (length ps),
           median_slope := ms, offsets := sort offs, median_offset := mo, EstT := est,
           printed := printed s @ [Regression (B s) (T s) ms mo est]\<rparr>)"
proof -
  define ps where "ps = pair_slopes (B s) (T s)"
  define ms where "ms = median_of_sorted (sort ps)"
  define offs where "offs = offsets_spec (B s) (T s) ms"
  have len: "length (B s) = 12" "length (T s) = 12" "length (offsets s) = 12"
    "length (EstT s) = 12" "66 \<le> length (slopes s)"
    using assms(1) by (simp_all add: sized_def)
  have offs: "length offs = 12" "offs \<noteq> []"
    by (auto simp: offs_def offsets_spec_def)
  have g1: "getMedian (ps @ drop (length ps) (slopes s)) (int (length ps)) =
      Some (ms, sort ps @ drop (length ps) (slopes s))"
    using assms(2) by (simp add: getMedian_all ps_def ms_def)
  have g2: "getMedian offs 12 = Some (median_of_sorted (sort offs), sort offs)"
    using getMedian_all [OF offs(2), of "[]"] offs(1) by simp
  show ?thesis
    using len g1 g2
    by (simp add: regression_analysis_def collect_slopes_result compute_offsets_result estimate_temperatures_result
        Let_def ps_def [symmetric] ms_def [symmetric] offs_def [symmetric])
qed

lemma sized_sample: "sized sample_state"
  by (simp add: sized_def sample_state_def initial_state_def)

lemma median_of_sorted_replicate:
  "0 < n \<Longrightarrow> median_of_sorted (replicate n x) = x"
proof -
  assume n: "0 < n"
  have "n div 2 < n" "n div 2 - 1 < n"
    using n by simp_all
  then show ?thesis
    by (simp add: median_of_sorted_def)
qed

lemma pair_slopes_sample: "pair_slopes (B sample_state) (T sample_state) = replicate 66 2"
proof -
  have "replicate 66 2 = replicate (Suc 65) (2::real)" by simp
  have "pair_slopes (B sample_state) (T sample_state) =
     [2, 2, 2, 2, 2, 2, 2, 2, 2, 2, 2, 2, 2, 2, 2, 2, 2, 2, 2, 2, 2, 2,
      2, 2, 2, 2, 2, 2, 2, 2, 2, 2, 2, 2, 2, 2, 2, 2, 2, 2, 2, 2, 2, 2,
      2, 2, 2, 2, 2, 2, 2, 2, 2, 2, 2, 2, 2, 2, 2, 2, 2, 2, 2, 2, 2, 2]"
    by (simp add: pair_slopes_def row_slopes_def sample_state_def upt_12 upt_rec [of _ 12])
  also have "\<dots> = replicate 66 2"
    by code_simp
  finally show ?thesis .
qed

lemma offsets_sample: "offsets_spec (B sample_state) (T sample_state) 2 = replicate 12 0"
proof -
  have "offsets_spec (B sample_state) (T sample_state) 2 = [0, 0, 0, 0, 0, 0, 0, 0, 0, 0, 0, 0]"
    by (simp add: offsets_spec_def sample_state_def upt_12)
  also have "\<dots> = replicate 12 0"
    by code_simp
  finally show ?thesis .
qed

lemma theil_sen_sample:
  "theil_sen (B sample_state) (T sample_state) = Some (2, 0, T sample_state)"
proof -
  have "predicted_spec (B sample_state) 2 0 = T sample_state"
    by (simp add: predicted_spec_def sample_state_def upt_12)
  then show ?thesis
    by (simp add: theil_sen_def median_spec_def pair_slopes_sample offsets_sample
        median_of_sorted_replicate)
qed

lemma regression_theil_sen_general:
  assumes "sized s"
  shows "map_option (\<lambda>s'. (median_slope s', median_offset s', EstT s')) (regression_analysis s) =
      theil_sen (B s) (T s)"
proof (cases "pair_slopes (B s) (T s) = []")
  case True
  then show ?thesis
    using assms by (simp add: regression_flat theil_sen_def median_spec_def)
next
  case False
  have "offsets_spec (B s) (T s) x \<noteq> []" for x
    by (simp add: offsets_spec_def)
  then show ?thesis
    using assms False
    by (simp add: regression_result theil_sen_def median_spec_def Let_def)
qed

text \<open>
  C2. For every state whose arrays have their declared sizes, the regression block
  computes what the specification describes: the slopes
  \<open>(temp[j] - temp[i]) / (light[j] - light[i])\<close> of all pairs \<open>i < j\<close> with different
  light values, their median, the twelve offsets \<open>temp[i] - medianSlope * light[i]\<close>,
  the median of the offsets, and the predictions \<open>medianSlope * light[i] + medianOffset\<close>.
  Where the specification's median is undefined (no pair with different light values)
  the block has no result. When it has a result, the first \<open>slopes_count\<close> elements of
  the slope buffer are the collected slopes, sorted. For light 1, 2, ..., 12 and
  temperature twice the light, the median slope is 2, the median offset is 0 and the
  predictions are the temperatures.
\<close>

theorem regression_theil_sen:
  "(\<forall>s. sized s \<longrightarrow>
      map_option (\<lambda>s'. (median_slope s', median_offset s', EstT s')) (regression_analysis s) =
        theil_sen (B s) (T s) \<and>
      (\<forall>s'. regression_analysis s = Some s' \<longrightarrow>
         slopes_count s' = int (length (pair_slopes (B s) (T s))) \<and>
         take (nat (slopes_count s')) (slopes s') = sort (pair_slopes (B s) (T s)) \<and>
         last (printed s') = Regression (B s) (T s) (median_slope s') (median_offset s') (EstT s'))) \<and>
   (\<exists>s'. regression_analysis sample_state = Some s' \<and> median_slope s' = 2.0 \<and>
      median_offset s' = 0.0 \<and> EstT s' = T sample_state)"
proof (intro conjI allI impI)
  fix s
  assume "sized s"
  then show "map_option (\<lambda>s'. (median_slope s', median_offset s', EstT s'))
      (regression_analysis s) = theil_sen (B s) (T s)"
    by (rule regression_theil_sen_general)
next
  fix s s'
  assume s: "sized s" and r: "regression_analysis s = Some s'"
  have ne: "pair_slopes (B s) (T s) \<noteq> []"
    using s r regression_flat by fastforce
  show "slopes_count s' = int (length (pair_slopes (B s) (T s)))"
    using r by (auto simp: regression_result [OF s ne] Let_def)
  show "take (nat (slopes_count s')) (slopes s') = sort (pair_slopes (B s) (T s))"
    using r by (auto simp: regression_result [OF s ne] Let_def)
  show "last (printed s') =
      Regression (B s) (T s) (median_slope s') (median_offset s') (EstT s')"
    using r by (auto simp: regression_result [OF s ne] Let_def)
next
  have "map_option (\<lambda>s'. (median_slope s', median_offset s', EstT s'))
      (regression_analysis sample_state) = Some (2, 0, T sample_state)"
    using regression_theil_sen_general [OF sized_sample] theil_sen_sample by simp
  then show "\<exists>s'. regression_analysis sample_state = Some s' \<and> median_slope s' = 2.0 \<and>
      median_offset s' = 0.0 \<and> EstT s' = T sample_state"
    by auto
qed

theorem regression_theil_sen_witness:
  "sized sample_state \<and>
   (\<exists>s'. regression_analysis sample_state = Some s' \<and> slopes_count s' = 66 \<and>
      take 66 (slopes s') = replicate 66 2 \<and>
      (median_slope s', median_offset s', EstT s') =
        (2, 0, [2, 4, 6, 8, 10, 12, 14, 16, 18, 20, 22, 24]))"
proof -
  have g: "map_option (\<lambda>s'. (median_slope s', median_offset s', EstT s'))
       (regression_analysis sample_state) = theil_sen (B sample_state) (T sample_state) \<and>
     (\<forall>s'. regression_analysis sample_state = Some s' \<longrightarrow>
         slopes_count s' = int (length (pair_slopes (B sample_state) (T sample_state))) \<and>
         take (nat (slopes_count s')) (slopes s') =
           sort (pair_slopes (B sample_state) (T sample_state)) \<and>
         last (printed s') = Regression (B sample_state) (T sample_state)
           (median_slope s') (median_offset s') (EstT s'))"
    using regression_theil_sen sized_sample by blast
  then obtain s' where s': "regression_analysis sample_state = Some s'"
    "(median_slope s', median_offset s', EstT s') = (2, 0, T sample_state)"
    by (auto simp: theil_sen_sample)
  have c: "slopes_count s' = 66"
    using g s'(1) by (simp add: pair_slopes_sample)
  have "take (nat (slopes_count s')) (slopes s') =
      sort (pair_slopes (B sample_state) (T sample_state))"
    using g s'(1) by blast
  then have "take 66 (slopes s') = replicate 66 2"
    unfolding c by (simp add: pair_slopes_sample)
  moreover note c
  moreover have "T sample_state = [2, 4, 6, 8, 10, 12, 14, 16, 18, 20, 22, 24]"
    by (simp add: sample_state_def)
  ultimately show ?thesis
    using s' sized_sample by simp
qed

text \<open>
  C10. For every state whose arrays have their declared sizes, the loop over the pairs
  ends with a count from 0 to 66 and with the buffer still 144 long, and no write leaves
  the buffer. It does the same on a buffer of only 66 slots: every write has an index
  below 66, so the count is at most 66 after every write. When at least one slope was
  collected, the median call that follows succeeds on the first \<open>slopes_count\<close> slots
  alone, with every access checked against that length, and gives the same median and
  the same sorted slots as on the whole buffer.
\<close>

theorem slopes_within_buffer:
  assumes "sized s"
  shows "\<exists>s'. collect_slopes s = Some s' \<and>
     0 \<le> slopes_count s' \<and> slopes_count s' \<le> 66 \<and> length (slopes s') = 144 \<and>
     (\<forall>a. length a = 66 \<longrightarrow>
        (\<exists>s''. collect_slopes (s\<lparr>slopes := a\<rparr>) = Some s'' \<and> slopes_count s'' = slopes_count s')) \<and>
     (1 \<le> slopes_count s' \<longrightarrow>
        (\<exists>median a.
           getMedian (take (nat (slopes_count s')) (slopes s')) (slopes_count s') = Some (median, a) \<and>
           length a = nat (slopes_count s') \<and>
           getMedian (slopes s') (slopes_count s') =
             Some (median, a @ drop (nat (slopes_count s')) (slopes s'))))"
proof -
  define ps where "ps = pair_slopes (B s) (T s)"
  define s' where "s' = s\<lparr>slopes := ps @ drop (length ps) (slopes s),
     slopes_count := int (length ps)\<rparr>"
  have len: "length (B s) = 12" "length (T s) = 12" "length (slopes s) = 144"
    using assms by (simp_all add: sized_def)
  have ps: "length ps \<le> 66"
    by (simp add: ps_def length_pair_slopes)
  have run: "collect_slopes s = Some s'"
    using len by (simp add: collect_slopes_result s'_def ps_def)
  have small: "\<exists>s''. collect_slopes (s\<lparr>slopes := a\<rparr>) = Some s'' \<and> slopes_count s'' = slopes_count s'"
    if "length a = 66" for a
    using len that by (simp add: collect_slopes_result s'_def ps_def)
  have med: "\<exists>median a.
      getMedian (take (nat (slopes_count s')) (slopes s')) (slopes_count s') = Some (median, a) \<and>
      length a = nat (slopes_count s') \<and>
      getMedian (slopes s') (slopes_count s') =
        Some (median, a @ drop (nat (slopes_count s')) (slopes s'))"
    if "1 \<le> slopes_count s'"
  proof -
    have ne: "ps \<noteq> []"
      using that by (auto simp: s'_def)
    have "getMedian (ps @ []) (int (length ps)) = Some (median_of_sorted (sort ps), sort ps @ [])"
      using ne by (rule getMedian_all)
    moreover have "getMedian (ps @ drop (length ps) (slopes s)) (int (length ps)) =
        Some (median_of_sorted (sort ps), sort ps @ drop (length ps) (slopes s))"
      using ne by (rule getMedian_all)
    ultimately show ?thesis
      by (simp add: s'_def)
  qed
  have "0 \<le> slopes_count s'" "slopes_count s' \<le> 66" "length (slopes s') = 144"
    using ps len by (simp_all add: s'_def)
  then show ?thesis
    using run small med by blast
qed

theorem slopes_within_buffer_witness:
  "sized sample_state \<and>
   (\<exists>s'. collect_slopes sample_state = Some s' \<and> slopes_count s' = 66 \<and>
      (\<exists>median a. getMedian (take 66 (slopes s')) 66 = Some (median, a) \<and>
         getMedian (slopes s') 66 = Some (median, a @ drop 66 (slopes s'))))"
proof -
  obtain s' where s': "collect_slopes sample_state = Some s'"
    "1 \<le> slopes_count s' \<longrightarrow>
        (\<exists>median a.
           getMedian (take (nat (slopes_count s')) (slopes s')) (slopes_count s') = Some (median, a) \<and>
           length a = nat (slopes_count s') \<and>
           getMedian (slopes s') (slopes_count s') =
             Some (median, a @ drop (nat (slopes_count s')) (slopes s')))"
    using slopes_within_buffer [OF sized_sample] by blast
  have "slopes_count s' = 66"
    using s'(1) sized_sample
    by (auto simp: collect_slopes_result sized_def pair_slopes_sample)
  then show ?thesis
    using s' sized_sample by auto
qed

subsection \<open>The ticks of the process\<close>

lemma sized_updates [simp]:
  "sized (s\<lparr>readcount := r\<rparr>) = sized s"
  "sized (s\<lparr>printed := p\<rparr>) = sized s"
  by (simp_all add: sized_def)

lemma count_read_fields [simp]:
  "sized (count_read s) = sized s" "B (count_read s) = B s" "T (count_read s) = T s"
  "printed (count_read s) = printed s"
  "readcount (count_read s) = (if readcount s < 12 then readcount s + 1 else 1)"
  by (simp_all add: count_read_def sized_def)

lemma push_frame:
  assumes "sized s"
  shows "\<exists>s'. push light_lx temp_c s = Some s' \<and> sized s' \<and> readcount s' = readcount s \<and>
     B s' = tl (B s) @ [light_lx] \<and> T s' = tl (T s) @ [temp_c] \<and>
     printed s' = printed s @ [Reading light_lx temp_c]"
  using assms by (simp add: push_result sized_def)

lemma activity_frame:
  assumes "sized s"
  shows "\<exists>s' sd c x. activity_measurement s = Some s' \<and> sized s' \<and>
     readcount s' = readcount s \<and> B s' = B s \<and> T s' = T s \<and>
     printed s' = printed s @ [Measurement (B s) sd c x]"
proof -
  have "classify sd = 1 \<or> classify sd = 3 \<or> classify sd = 12" for sd
    by (simp add: classify_def)
  then have "classify (sqrt_c (squared_deviations (B s))) = 1
      \<or> classify (sqrt_c (squared_deviations (B s))) = 3
      \<or> classify (sqrt_c (squared_deviations (B s))) = 12"
    by blast
  then show ?thesis
    using assms
    by (elim disjE) (simp_all add: activity_measurement_result sized_def Let_def)
qed

lemma regression_frame:
  assumes "sized s" "regression_analysis s = Some s'"
  shows "sized s' \<and> readcount s' = readcount s \<and> B s' = B s \<and> T s' = T s \<and>
     (\<exists>ms mo est. printed s' = printed s @ [Regression (B s) (T s) ms mo est])"
proof -
  have ne: "pair_slopes (B s) (T s) \<noteq> []"
    using assms regression_flat by fastforce
  have "length (pair_slopes (B s) (T s)) \<le> 66"
    by (rule length_pair_slopes)
  then show ?thesis
    using assms(2) assms(1)
    by (auto simp: regression_result [OF assms(1) ne] Let_def sized_def offsets_spec_def
        predicted_spec_def)
qed

lemma tick_unfold:
  assumes "sized s"
  shows "\<exists>s1. push light_lx temp_c (count_read s) = Some s1 \<and> sized s1 \<and>
     readcount s1 = (if readcount s < 12 then readcount s + 1 else 1) \<and>
     B s1 = tl (B s) @ [light_lx] \<and> T s1 = tl (T s) @ [temp_c] \<and>
     printed s1 = printed s @ [Reading light_lx temp_c] \<and>
     tick temp_c light_lx s =
       (if readcount s1 = 6 then activity_measurement s1
        else if readcount s1 = 12 then
          (case activity_measurement s1 of None \<Rightarrow> None | Some s2 \<Rightarrow> regression_analysis s2)
        else Some s1)"
proof -
  obtain s1 where s1: "push light_lx temp_c (count_read s) = Some s1" "sized s1"
    "readcount s1 = readcount (count_read s)"
    "B s1 = tl (B (count_read s)) @ [light_lx]" "T s1 = tl (T (count_read s)) @ [temp_c]"
    "printed s1 = printed (count_read s) @ [Reading light_lx temp_c]"
    using push_frame [where s = "count_read s" and light_lx = light_lx and temp_c = temp_c] assms
    by auto
  obtain s2 where s2: "activity_measurement s1 = Some s2" "readcount s2 = readcount s1"
    using activity_frame [OF s1(2)] by blast
  have "tick temp_c light_lx s =
       (if readcount s1 = 6 then activity_measurement s1
        else if readcount s1 = 12 then
          (case activity_measurement s1 of None \<Rightarrow> None | Some s2 \<Rightarrow> regression_analysis s2)
        else Some s1)"
    using s1(1) s2 by (simp add: tick_def k_def)
  then show ?thesis
    using s1 by simp
qed

lemma tick_step:
  assumes "sized s" "0 \<le> readcount s" "readcount s \<le> 12"
  shows "(case tick temp_c light_lx s of
      None \<Rightarrow> readcount s = 11
    | Some s' \<Rightarrow> sized s' \<and> 1 \<le> readcount s' \<and> readcount s' \<le> 12 \<and>
        readcount s' = (if readcount s = 12 then 1 else readcount s + 1) \<and>
        B s' = tl (B s) @ [light_lx] \<and> T s' = tl (T s) @ [temp_c] \<and>
        (\<exists>rest. printed s' = printed s @ Reading light_lx temp_c # rest \<and>
           ((\<exists>e \<in> set rest. is_Measurement e) = (readcount s' = 6 \<or> readcount s' = 12)) \<and>
           ((\<exists>e \<in> set rest. is_Regression e) = (readcount s' = 12))))"
proof -
  obtain s1 where s1: "sized s1"
    "readcount s1 = (if readcount s < 12 then readcount s + 1 else 1)"
    "B s1 = tl (B s) @ [light_lx]" "T s1 = tl (T s) @ [temp_c]"
    "printed s1 = printed s @ [Reading light_lx temp_c]"
    and run: "tick temp_c light_lx s =
       (if readcount s1 = 6 then activity_measurement s1
        else if readcount s1 = 12 then
          (case activity_measurement s1 of None \<Rightarrow> None | Some s2 \<Rightarrow> regression_analysis s2)
        else Some s1)"
    using tick_unfold [OF assms(1), where temp_c = temp_c and light_lx = light_lx] by blast
  have rc: "1 \<le> readcount s1" "readcount s1 \<le> 12"
    "readcount s1 = (if readcount s = 12 then 1 else readcount s + 1)"
    using assms s1(2) by auto
  obtain s2 sd c x where s2: "activity_measurement s1 = Some s2" "sized s2"
    "readcount s2 = readcount s1" "B s2 = B s1" "T s2 = T s1"
    "printed s2 = printed s1 @ [Measurement (B s1) sd c x]"
    using activity_frame [OF s1(1)] by blast
  consider "readcount s1 = 6" | "readcount s1 = 12" | "readcount s1 \<noteq> 6" "readcount s1 \<noteq> 12"
    by blast
  then show ?thesis
  proof cases
    case 1
    then have "tick temp_c light_lx s = Some s2"
      using run s2(1) by simp
    moreover have "printed s2 = printed s @ Reading light_lx temp_c # [Measurement (B s1) sd c x]"
      using s2(6) s1(5) by simp
    ultimately show ?thesis
      using 1 s1 s2 rc by (simp split del: if_split)
  next
    case 2
    then have t: "tick temp_c light_lx s = regression_analysis s2"
      using run s2(1) by simp
    show ?thesis
    proof (cases "regression_analysis s2")
      case None
      moreover have "readcount s = 11"
        using 2 s1(2) by (auto split: if_splits)
      ultimately show ?thesis
        using t by simp
    next
      case (Some s3)
      obtain ms mo est where s3: "sized s3" "readcount s3 = readcount s2" "B s3 = B s2"
        "T s3 = T s2" "printed s3 = printed s2 @ [Regression (B s2) (T s2) ms mo est]"
        using regression_frame [OF s2(2) Some] by blast
      have "printed s3 = printed s @ Reading light_lx temp_c #
          [Measurement (B s1) sd c x, Regression (B s2) (T s2) ms mo est]"
        using s3(5) s2(6) s1(5) by simp
      then show ?thesis
        using t Some 2 s1 s2 s3 rc
        by (simp split del: if_split)
    qed
  next
    case 3
    then have "tick temp_c light_lx s = Some s1"
      using run by simp
    then show ?thesis
      using 3 s1 rc by (simp split del: if_split)
  qed
qed

lemma sized_initial: "sized initial_state"
  by (simp add: sized_def initial_state_def)

lemma initial_fields:
  "readcount initial_state = 0" "B initial_state = replicate 12 0"
  "printed initial_state = []"
  by (simp_all add: initial_state_def)

lemma ticks_append:
  "ticks (xs @ ys) s = (case ticks xs s of None \<Rightarrow> None | Some s' \<Rightarrow> ticks ys s')"
  by (induction xs arbitrary: s) (auto split: option.splits)

lemma ticks_readcount:
  "sized s \<Longrightarrow> 0 \<le> readcount s \<Longrightarrow> readcount s \<le> 12 \<Longrightarrow> ticks rs s = Some s' \<Longrightarrow>
   sized s' \<and> 0 \<le> readcount s' \<and> readcount s' \<le> 12 \<and>
   (rs \<noteq> [] \<longrightarrow> readcount s' = (readcount s + int (length rs) - 1) mod 12 + 1)"
proof (induction rs arbitrary: s)
  case Nil
  then show ?case by simp
next
  case (Cons r rs)
  obtain temp_c light_lx where r: "r = (temp_c, light_lx)"
    by (cases r)
  obtain s1 where s1: "tick temp_c light_lx s = Some s1" "ticks rs s1 = Some s'"
    using Cons.prems(4) by (auto simp: r split: option.splits)
  have st: "sized s1" "1 \<le> readcount s1" "readcount s1 \<le> 12"
    "readcount s1 = (if readcount s = 12 then 1 else readcount s + 1)"
    using tick_step [OF Cons.prems(1-3), where temp_c = temp_c and light_lx = light_lx] s1(1)
    by simp_all
  have ih: "sized s' \<and> 0 \<le> readcount s' \<and> readcount s' \<le> 12 \<and>
      (rs \<noteq> [] \<longrightarrow> readcount s' = (readcount s1 + int (length rs) - 1) mod 12 + 1)"
    using Cons.IH [OF st(1) _ st(3) s1(2)] st(2) by simp
  show ?case
  proof (cases "rs = []")
    case True
    then have "s' = s1" using s1(2) by simp
    then show ?thesis
      using True st Cons.prems(2,3) by auto
  next
    case False
    have "(readcount s1 + int (length rs) - 1) mod 12 =
        (readcount s + int (length (r # rs)) - 1) mod 12"
      using st(4) by (auto simp: mod_simps)
    then show ?thesis
      using ih False by simp
  qed
qed

lemma ticks_counter:
  assumes "rs \<noteq> []" "ticks rs initial_state = Some s'"
  shows "readcount s' = int ((length rs - 1) mod 12) + 1"
proof -
  have z: "readcount initial_state = 0"
    by (rule initial_fields)
  have "rs \<noteq> [] \<longrightarrow>
      readcount s' = (readcount initial_state + int (length rs) - 1) mod 12 + 1"
    using ticks_readcount [OF sized_initial _ _ assms(2)] unfolding z by linarith
  then have 1: "readcount s' = (int (length rs) - 1) mod 12 + 1"
    using assms(1) unfolding z by simp
  have 2: "int (length rs) - 1 = int (length rs - 1)"
    using assms(1) by (cases rs) simp_all
  show ?thesis
    unfolding 1 2 by (simp only: of_nat_mod of_nat_numeral)
qed

lemma pair_slopes_flat:
  assumes "\<forall>m < 12. \<forall>n < 12. light ! m = light ! n"
  shows "pair_slopes light temp = []"
proof -
  have ne: "(light ! m \<noteq> light ! n) = False" if "m < 12" "n < 12" for m n
    using assms that by blast
  have "row_slopes light temp m = []" if "m < 12" for m
    unfolding row_slopes_def concat_eq_Nil_conv
  proof
    fix xs
    assume "xs \<in> set (map (\<lambda>j. if light ! m \<noteq> light ! j
        then [(temp ! j - temp ! m) / (light ! j - light ! m)] else []) [m + 1..<12])"
    then obtain j where "j < 12"
      "xs = (if light ! m \<noteq> light ! j
        then [(temp ! j - temp ! m) / (light ! j - light ! m)] else [])"
      by auto
    then show "xs = []"
      using ne [OF that, of j] by simp
  qed
  then show ?thesis
    by (simp add: pair_slopes_def)
qed

lemma ticks_constant:
  "sized s \<Longrightarrow> 0 \<le> readcount s \<Longrightarrow> readcount s + int n < 12 \<Longrightarrow>
   \<exists>s'. ticks (replicate n (temp_c, light_lx)) s = Some s' \<and> sized s' \<and>
     readcount s' = readcount s + int n \<and> B s' = drop n (B s) @ replicate n light_lx"
proof (induction n arbitrary: s)
  case 0
  then show ?case by simp
next
  case (Suc n)
  have rc: "readcount s \<le> 12" "readcount s \<noteq> 11" "readcount s \<noteq> 12"
    using Suc.prems by simp_all
  obtain s1 where s1: "tick temp_c light_lx s = Some s1" "sized s1"
    "readcount s1 = readcount s + 1" "B s1 = tl (B s) @ [light_lx]"
    using tick_step [OF Suc.prems(1,2) rc(1), where temp_c = temp_c and light_lx = light_lx] rc
    by (cases "tick temp_c light_lx s") simp_all
  obtain s' where s': "ticks (replicate n (temp_c, light_lx)) s1 = Some s'" "sized s'"
    "readcount s' = readcount s1 + int n" "B s' = drop n (B s1) @ replicate n light_lx"
    using Suc.IH [OF s1(2)] s1(3) Suc.prems by auto
  have "length (B s) = 12" "n < 11"
    using Suc.prems by (simp_all add: sized_def)
  then have "drop n (tl (B s) @ [light_lx]) @ replicate n light_lx =
      drop (Suc n) (B s) @ replicate (Suc n) light_lx"
    by (simp add: drop_Suc replicate_append_same)
  then show ?case
    using s1 s' by simp
qed

lemma ticks_flat:
  "ticks (replicate 12 (temp_c, light_lx)) initial_state = None"
proof -
  obtain s11 where s11: "ticks (replicate 11 (temp_c, light_lx)) initial_state = Some s11"
    "sized s11" "readcount s11 = 11" "B s11 = drop 11 (B initial_state) @ replicate 11 light_lx"
    using ticks_constant [OF sized_initial, of 11 temp_c light_lx] initial_fields(1)
    by auto
  obtain s1 where s1: "sized s1" "readcount s1 = 12" "B s1 = tl (B s11) @ [light_lx]"
    and run: "tick temp_c light_lx s11 =
       (if readcount s1 = 6 then activity_measurement s1
        else if readcount s1 = 12 then
          (case activity_measurement s1 of None \<Rightarrow> None | Some s2 \<Rightarrow> regression_analysis s2)
        else Some s1)"
    using tick_unfold [OF s11(2), where temp_c = temp_c and light_lx = light_lx] s11(3)
    by auto
  obtain s2 where s2: "activity_measurement s1 = Some s2" "sized s2" "B s2 = B s1"
    using activity_frame [OF s1(1)] by blast
  have "replicate 12 light_lx = light_lx # replicate 11 light_lx"
    by (simp add: eval_nat_numeral)
  then have "B s2 = replicate 12 light_lx"
    using s2(3) s1(3) s11(4) by (simp add: initial_fields(2) replicate_append_same)
  then have "pair_slopes (B s2) (T s2) = []"
    by (intro pair_slopes_flat) simp
  then have "regression_analysis s2 = None"
    using s2(2) by (intro regression_flat)
  then have "tick temp_c light_lx s11 = None"
    using run s1(2) s2(1) by simp
  moreover have "replicate 12 (temp_c, light_lx) =
      replicate 11 (temp_c, light_lx) @ [(temp_c, light_lx)]"
    by (simp add: replicate_append_same eval_nat_numeral)
  ultimately show ?thesis
    using s11(1) by (simp only: ticks_append) simp
qed

text \<open>
  C3. With twelve equal light readings no pair has different light values, no slope is
  collected, and the median is called with a count of 0: it reads the element at index
  -1 of the slope buffer. Eleven ticks with light 5 have a result; the twelfth, which
  runs the regression on a window of twelve fives, has none.
\<close>

theorem flat_window_reads_outside:
  "rd (slopes initial_state) (0 sdiv 2 - 1) = None \<and>
   getMedian (slopes initial_state) 0 = None \<and>
   ticks (replicate 11 (20, 5)) initial_state \<noteq> None \<and>
   ticks (replicate 12 (20, 5)) initial_state = None"
proof -
  have "\<exists>s'. ticks (replicate 11 (20, 5)) initial_state = Some s'"
    using ticks_constant [OF sized_initial, of 11 20 5] initial_fields(1) by auto
  moreover have "rd (slopes initial_state) (0 sdiv 2 - 1) = None"
    by (simp add: rd_def)
  ultimately show ?thesis
    using ticks_flat [of 20 5] getMedian_0 [of "slopes initial_state"] by auto
qed

subsection \<open>The read cycle\<close>

lemma concat_map_not_Nil: "x \<in> set xs \<Longrightarrow> f x \<noteq> [] \<Longrightarrow> concat (map f xs) \<noteq> []"
  by (induction xs) auto

lemma pair_slopes_differ:
  assumes "m < n" "n < 12" "light ! m \<noteq> light ! n"
  shows "pair_slopes light temp \<noteq> []"
proof -
  have "n \<in> set [m + 1..<12]"
    using assms by simp
  then have "concat (map (\<lambda>j. if light ! m \<noteq> light ! j
      then [(temp ! j - temp ! m) / (light ! j - light ! m)] else []) [m + 1..<12]) \<noteq> []"
    by (rule concat_map_not_Nil) (simp add: assms(3))
  then have "row_slopes light temp m \<noteq> []"
    unfolding row_slopes_def .
  moreover have "m \<in> set [0..<12]"
    using assms by simp
  ultimately have "concat (map (row_slopes light temp) [0..<12]) \<noteq> []"
    by (intro concat_map_not_Nil)
  then show ?thesis
    unfolding pair_slopes_def .
qed

lemma pair_slopes_Nil_iff:
  "(pair_slopes light temp = []) = (\<forall>m < 12. \<forall>n < 12. light ! m = light ! n)"
proof
  assume e: "pair_slopes light temp = []"
  show "\<forall>m < 12. \<forall>n < 12. light ! m = light ! n"
  proof (intro allI impI)
    fix m n :: nat
    assume mn: "m < 12" "n < 12"
    show "light ! m = light ! n"
    proof (rule ccontr)
      assume d: "light ! m \<noteq> light ! n"
      then have "m \<noteq> n" by auto
      then consider "m < n" | "n < m" by linarith
      then show False
      proof cases
        case 1
        then show ?thesis using pair_slopes_differ [OF 1 mn(2) d] e by simp
      next
        case 2
        then show ?thesis using pair_slopes_differ [OF 2 mn(1) d [symmetric]] e by simp
      qed
    qed
  qed
next
  assume "\<forall>m < 12. \<forall>n < 12. light ! m = light ! n"
  then show "pair_slopes light temp = []"
    by (rule pair_slopes_flat)
qed

lemma regression_None_iff:
  assumes "sized s"
  shows "(regression_analysis s = None) = (\<forall>m < 12. \<forall>n < 12. B s ! m = B s ! n)"
proof (cases "pair_slopes (B s) (T s) = []")
  case True
  have "regression_analysis s = None"
    using assms True by (rule regression_flat)
  moreover have "\<forall>m < 12. \<forall>n < 12. B s ! m = B s ! n"
    using True unfolding pair_slopes_Nil_iff .
  ultimately show ?thesis
    by blast
next
  case False
  have "regression_analysis s \<noteq> None"
    unfolding regression_result [OF assms False] by (rule option.distinct(2))
  moreover have "\<not> (\<forall>m < 12. \<forall>n < 12. B s ! m = B s ! n)"
    using False unfolding pair_slopes_Nil_iff .
  ultimately show ?thesis
    by blast
qed

lemma tick_full:
  assumes "sized s" "0 \<le> readcount s" "readcount s \<le> 12"
  shows "((tick temp_c light_lx s = None) =
       (readcount s = 11 \<and>
        (\<forall>m < 12. \<forall>n < 12. (tl (B s) @ [light_lx]) ! m = (tl (B s) @ [light_lx]) ! n))) \<and>
     (case tick temp_c light_lx s of
        None \<Rightarrow> readcount s = 11 \<and>
          (\<exists>s1 s2 sd c x. push light_lx temp_c (count_read s) = Some s1 \<and> readcount s1 = 12 \<and>
             activity_measurement s1 = Some s2 \<and> readcount s2 = 12 \<and>
             printed s2 = printed s @ [Reading light_lx temp_c, Measurement (B s2) sd c x] \<and>
             regression_analysis s2 = None)
      | Some s' \<Rightarrow> sized s' \<and> 1 \<le> readcount s' \<and> readcount s' \<le> 12 \<and>
          readcount s' = (if readcount s = 12 then 1 else readcount s + 1) \<and>
          B s' = tl (B s) @ [light_lx] \<and> T s' = tl (T s) @ [temp_c] \<and>
          (\<exists>rest. printed s' = printed s @ Reading light_lx temp_c # rest \<and>
             ((\<exists>e \<in> set rest. is_Measurement e) = (readcount s' = 6 \<or> readcount s' = 12)) \<and>
             ((\<exists>e \<in> set rest. is_Regression e) = (readcount s' = 12))))"
proof -
  obtain s1 where s1: "push light_lx temp_c (count_read s) = Some s1" "sized s1"
    "readcount s1 = (if readcount s < 12 then readcount s + 1 else 1)"
    "B s1 = tl (B s) @ [light_lx]" "T s1 = tl (T s) @ [temp_c]"
    "printed s1 = printed s @ [Reading light_lx temp_c]"
    and run: "tick temp_c light_lx s =
       (if readcount s1 = 6 then activity_measurement s1
        else if readcount s1 = 12 then
          (case activity_measurement s1 of None \<Rightarrow> None | Some s2 \<Rightarrow> regression_analysis s2)
        else Some s1)"
    using tick_unfold [OF assms(1), where temp_c = temp_c and light_lx = light_lx] by blast
  obtain s2 sd c x where s2: "activity_measurement s1 = Some s2" "sized s2"
    "readcount s2 = readcount s1" "B s2 = B s1" "T s2 = T s1"
    "printed s2 = printed s1 @ [Measurement (B s1) sd c x]"
    using activity_frame [OF s1(2)] by blast
  have r12: "(readcount s1 = 12) = (readcount s = 11)"
    using s1(3) assms by auto
  have none: "(tick temp_c light_lx s = None) =
      (readcount s = 11 \<and>
       (\<forall>m < 12. \<forall>n < 12. (tl (B s) @ [light_lx]) ! m = (tl (B s) @ [light_lx]) ! n))"
  proof (cases "readcount s = 11")
    case True
    then have t: "tick temp_c light_lx s = regression_analysis s2"
      using run r12 s2(1) by simp
    have b: "B s2 = tl (B s) @ [light_lx]"
      using s2(4) s1(4) by simp
    have "(regression_analysis s2 = None) =
        (\<forall>m < 12. \<forall>n < 12. (tl (B s) @ [light_lx]) ! m = (tl (B s) @ [light_lx]) ! n)"
      using regression_None_iff [OF s2(2)] unfolding b .
    then show ?thesis
      unfolding t using True by blast
  next
    case False
    then have "tick temp_c light_lx s \<noteq> None"
      using run r12 s2(1) by auto
    then show ?thesis
      using False by blast
  qed
  have step: "case tick temp_c light_lx s of
      None \<Rightarrow> readcount s = 11
    | Some s' \<Rightarrow> sized s' \<and> 1 \<le> readcount s' \<and> readcount s' \<le> 12 \<and>
        readcount s' = (if readcount s = 12 then 1 else readcount s + 1) \<and>
        B s' = tl (B s) @ [light_lx] \<and> T s' = tl (T s) @ [temp_c] \<and>
        (\<exists>rest. printed s' = printed s @ Reading light_lx temp_c # rest \<and>
           ((\<exists>e \<in> set rest. is_Measurement e) = (readcount s' = 6 \<or> readcount s' = 12)) \<and>
           ((\<exists>e \<in> set rest. is_Regression e) = (readcount s' = 12)))"
    by (rule tick_step [OF assms])
  show ?thesis
  proof (cases "tick temp_c light_lx s")
    case None
    then have eleven: "readcount s = 11"
      using none by blast
    then have "regression_analysis s2 = None"
      using run r12 s2(1) None by simp
    moreover have "printed s2 = printed s @ [Reading light_lx temp_c, Measurement (B s2) sd c x]"
      using s2(4,6) s1(6) by simp
    moreover have "readcount s1 = 12" "readcount s2 = 12"
      using eleven r12 s2(3) by simp_all
    ultimately have ex: "\<exists>s1 s2 sd c x. push light_lx temp_c (count_read s) = Some s1 \<and>
        readcount s1 = 12 \<and> activity_measurement s1 = Some s2 \<and> readcount s2 = 12 \<and>
        printed s2 = printed s @ [Reading light_lx temp_c, Measurement (B s2) sd c x] \<and>
        regression_analysis s2 = None"
      using s1(1) s2(1) by blast
    have a: "(None = (None :: state option)) =
       (readcount s = 11 \<and>
        (\<forall>m < 12. \<forall>n < 12. (tl (B s) @ [light_lx]) ! m = (tl (B s) @ [light_lx]) ! n))"
      using none unfolding None .
    show ?thesis
      unfolding None option.case by (intro conjI a eleven ex)
  next
    case (Some s')
    show ?thesis
      using none step unfolding Some option.case by (rule conjI)
  qed
qed

lemma ticks_short:
  "sized s \<Longrightarrow> 0 \<le> readcount s \<Longrightarrow> readcount s + int (length rs) < 12 \<Longrightarrow>
   \<exists>s'. ticks rs s = Some s' \<and> sized s' \<and> readcount s' = readcount s + int (length rs) \<and>
     B s' = drop (length rs) (B s) @ map snd rs \<and> T s' = drop (length rs) (T s) @ map fst rs"
proof (induction rs arbitrary: s)
  case Nil
  then show ?case by simp
next
  case (Cons r rs)
  obtain temp_c light_lx where r: "r = (temp_c, light_lx)"
    by (cases r)
  have rc: "readcount s \<le> 12" "readcount s \<noteq> 11" "readcount s \<noteq> 12"
    using Cons.prems by simp_all
  obtain s1 where s1: "tick temp_c light_lx s = Some s1" "sized s1"
    "readcount s1 = readcount s + 1" "B s1 = tl (B s) @ [light_lx]"
    "T s1 = tl (T s) @ [temp_c]"
    using tick_step [OF Cons.prems(1,2) rc(1), where temp_c = temp_c and light_lx = light_lx] rc
    by (cases "tick temp_c light_lx s") simp_all
  obtain s' where s': "ticks rs s1 = Some s'" "sized s'"
    "readcount s' = readcount s1 + int (length rs)"
    "B s' = drop (length rs) (B s1) @ map snd rs" "T s' = drop (length rs) (T s1) @ map fst rs"
    using Cons.IH [OF s1(2)] s1(3) Cons.prems by auto
  have len: "length (B s) = 12" "length (T s) = 12" "length rs < 11"
    using Cons.prems by (simp_all add: sized_def)
  have sh: "drop (length rs) (tl xs @ [v]) @ ys = drop (Suc (length rs)) xs @ v # ys"
    if "length xs = 12" for xs :: "real list" and v ys
    using that len(3) by (simp add: drop_Suc)
  have b: "B s' = drop (Suc (length rs)) (B s) @ light_lx # map snd rs"
    unfolding s'(4) s1(4) by (rule sh [OF len(1)])
  have t: "T s' = drop (Suc (length rs)) (T s) @ temp_c # map fst rs"
    unfolding s'(5) s1(5) by (rule sh [OF len(2)])
  show ?case
    using s1(1,3) s'(1,2,3) b t r by simp
qed

lemma ticks_snoc:
  "ticks rs s = Some s' \<Longrightarrow>
   (ticks (rs @ [(temp_c, light_lx)]) s = None) = (tick temp_c light_lx s' = None)"
  by (simp add: ticks_append split: option.splits)

text \<open>
  C8. In every state whose arrays have their declared sizes and whose counter is from 0
  to 12, one tick moves the counter to the next value, 12 being followed by 1, so the
  counter is from 1 to 12 afterwards. After the reading, the tick prints a measurement
  report exactly when the new counter is 6 or 12 and a regression report exactly when
  it is 12. A tick has no result exactly when the counter becomes 12 and the twelve
  light values are then all equal; in that tick the counter was set to 12, the reading
  and the measurement report were printed, and the regression had no result. From the
  initial state, where the counter is 0, every state reached has its arrays sized and
  its counter from 0 to 12, the counter after \<open>m > 0\<close> ticks is \<open>(m - 1) mod 12 + 1\<close>,
  every run of fewer than twelve ticks has a result, and a run that has a result is
  continued by one more tick unless that tick has no result.
\<close>

theorem read_cycle:
  "(\<forall>s temp_c light_lx. sized s \<and> 0 \<le> readcount s \<and> readcount s \<le> 12 \<longrightarrow>
      ((tick temp_c light_lx s = None) =
         (readcount s = 11 \<and>
          (\<forall>m < 12. \<forall>n < 12. (tl (B s) @ [light_lx]) ! m = (tl (B s) @ [light_lx]) ! n))) \<and>
      (case tick temp_c light_lx s of
         None \<Rightarrow> readcount s = 11 \<and>
           (\<exists>s1 s2 sd c x. push light_lx temp_c (count_read s) = Some s1 \<and> readcount s1 = 12 \<and>
              activity_measurement s1 = Some s2 \<and> readcount s2 = 12 \<and>
              printed s2 = printed s @ [Reading light_lx temp_c, Measurement (B s2) sd c x] \<and>
              regression_analysis s2 = None)
       | Some s' \<Rightarrow> sized s' \<and> 1 \<le> readcount s' \<and> readcount s' \<le> 12 \<and>
           readcount s' = (if readcount s = 12 then 1 else readcount s + 1) \<and>
           B s' = tl (B s) @ [light_lx] \<and> T s' = tl (T s) @ [temp_c] \<and>
           (\<exists>rest. printed s' = printed s @ Reading light_lx temp_c # rest \<and>
              ((\<exists>e \<in> set rest. is_Measurement e) = (readcount s' = 6 \<or> readcount s' = 12)) \<and>
              ((\<exists>e \<in> set rest. is_Regression e) = (readcount s' = 12))))) \<and>
   sized initial_state \<and> readcount initial_state = 0 \<and>
   (\<forall>rs s'. ticks rs initial_state = Some s' \<longrightarrow>
      sized s' \<and> 0 \<le> readcount s' \<and> readcount s' \<le> 12 \<and>
      (rs \<noteq> [] \<longrightarrow> readcount s' = int ((length rs - 1) mod 12) + 1)) \<and>
   (\<forall>rs. length rs < 12 \<longrightarrow> ticks rs initial_state \<noteq> None) \<and>
   (\<forall>rs s' temp_c light_lx. ticks rs initial_state = Some s' \<longrightarrow>
      (ticks (rs @ [(temp_c, light_lx)]) initial_state = None) =
        (readcount s' = 11 \<and>
         (\<forall>m < 12. \<forall>n < 12. (tl (B s') @ [light_lx]) ! m = (tl (B s') @ [light_lx]) ! n)))"
proof -
  have step: "\<forall>s temp_c light_lx. sized s \<and> 0 \<le> readcount s \<and> readcount s \<le> 12 \<longrightarrow>
      ((tick temp_c light_lx s = None) =
         (readcount s = 11 \<and>
          (\<forall>m < 12. \<forall>n < 12. (tl (B s) @ [light_lx]) ! m = (tl (B s) @ [light_lx]) ! n))) \<and>
      (case tick temp_c light_lx s of
         None \<Rightarrow> readcount s = 11 \<and>
           (\<exists>s1 s2 sd c x. push light_lx temp_c (count_read s) = Some s1 \<and> readcount s1 = 12 \<and>
              activity_measurement s1 = Some s2 \<and> readcount s2 = 12 \<and>
              printed s2 = printed s @ [Reading light_lx temp_c, Measurement (B s2) sd c x] \<and>
              regression_analysis s2 = None)
       | Some s' \<Rightarrow> sized s' \<and> 1 \<le> readcount s' \<and> readcount s' \<le> 12 \<and>
           readcount s' = (if readcount s = 12 then 1 else readcount s + 1) \<and>
           B s' = tl (B s) @ [light_lx] \<and> T s' = tl (T s) @ [temp_c] \<and>
           (\<exists>rest. printed s' = printed s @ Reading light_lx temp_c # rest \<and>
              ((\<exists>e \<in> set rest. is_Measurement e) = (readcount s' = 6 \<or> readcount s' = 12)) \<and>
              ((\<exists>e \<in> set rest. is_Regression e) = (readcount s' = 12))))"
  proof (intro allI impI)
    fix s temp_c light_lx
    assume "sized s \<and> 0 \<le> readcount s \<and> readcount s \<le> 12"
    then have a: "sized s" "0 \<le> readcount s" "readcount s \<le> 12"
      by simp_all
    show "((tick temp_c light_lx s = None) =
         (readcount s = 11 \<and>
          (\<forall>m < 12. \<forall>n < 12. (tl (B s) @ [light_lx]) ! m = (tl (B s) @ [light_lx]) ! n))) \<and>
      (case tick temp_c light_lx s of
         None \<Rightarrow> readcount s = 11 \<and>
           (\<exists>s1 s2 sd c x. push light_lx temp_c (count_read s) = Some s1 \<and> readcount s1 = 12 \<and>
              activity_measurement s1 = Some s2 \<and> readcount s2 = 12 \<and>
              printed s2 = printed s @ [Reading light_lx temp_c, Measurement (B s2) sd c x] \<and>
              regression_analysis s2 = None)
       | Some s' \<Rightarrow> sized s' \<and> 1 \<le> readcount s' \<and> readcount s' \<le> 12 \<and>
           readcount s' = (if readcount s = 12 then 1 else readcount s + 1) \<and>
           B s' = tl (B s) @ [light_lx] \<and> T s' = tl (T s) @ [temp_c] \<and>
           (\<exists>rest. printed s' = printed s @ Reading light_lx temp_c # rest \<and>
              ((\<exists>e \<in> set rest. is_Measurement e) = (readcount s' = 6 \<or> readcount s' = 12)) \<and>
              ((\<exists>e \<in> set rest. is_Regression e) = (readcount s' = 12))))"
      by (rule tick_full [OF a])
  qed
  have z: "readcount initial_state = 0"
    by (rule initial_fields)
  have reach: "sized s' \<and> 0 \<le> readcount s' \<and> readcount s' \<le> 12 \<and>
      (rs \<noteq> [] \<longrightarrow> readcount s' = int ((length rs - 1) mod 12) + 1)"
    if t: "ticks rs initial_state = Some s'" for rs s'
  proof -
    have "sized s' \<and> 0 \<le> readcount s' \<and> readcount s' \<le> 12"
      using ticks_readcount [OF sized_initial _ _ t] unfolding z by linarith
    moreover have "readcount s' = int ((length rs - 1) mod 12) + 1" if "rs \<noteq> []"
      using that t by (rule ticks_counter)
    ultimately show ?thesis
      by blast
  qed
  have short: "ticks rs initial_state \<noteq> None" if "length rs < 12" for rs
  proof -
    have "\<exists>s'. ticks rs initial_state = Some s'"
      using ticks_short [OF sized_initial, of rs] that unfolding z by auto
    then show ?thesis
      by auto
  qed
  have snoc: "(ticks (rs @ [(temp_c, light_lx)]) initial_state = None) =
        (readcount s' = 11 \<and>
         (\<forall>m < 12. \<forall>n < 12. (tl (B s') @ [light_lx]) ! m = (tl (B s') @ [light_lx]) ! n))"
    if t: "ticks rs initial_state = Some s'" for rs s' temp_c light_lx
  proof -
    have r: "sized s'" "0 \<le> readcount s'" "readcount s' \<le> 12"
      using reach [OF t] by blast+
    show ?thesis
      unfolding ticks_snoc [OF t]
      using tick_full [OF r, where temp_c = temp_c and light_lx = light_lx] by (rule conjunct1)
  qed
  have reach_all: "\<forall>rs s'. ticks rs initial_state = Some s' \<longrightarrow>
      sized s' \<and> 0 \<le> readcount s' \<and> readcount s' \<le> 12 \<and>
      (rs \<noteq> [] \<longrightarrow> readcount s' = int ((length rs - 1) mod 12) + 1)"
    using reach by blast
  have short_all: "\<forall>rs. length rs < 12 \<longrightarrow> ticks rs initial_state \<noteq> None"
    using short by blast
  have snoc_all: "\<forall>rs s' temp_c light_lx. ticks rs initial_state = Some s' \<longrightarrow>
      (ticks (rs @ [(temp_c, light_lx)]) initial_state = None) =
        (readcount s' = 11 \<and>
         (\<forall>m < 12. \<forall>n < 12. (tl (B s') @ [light_lx]) ! m = (tl (B s') @ [light_lx]) ! n))"
    using snoc by (intro allI impI)
  show ?thesis
    by (rule conjI [OF step conjI [OF sized_initial conjI [OF z conjI [OF reach_all
      conjI [OF short_all snoc_all]]]]])
qed

theorem read_cycle_witness:
  "sized initial_state \<and> 0 \<le> readcount initial_state \<and> readcount initial_state \<le> 12 \<and>
   length [(2::real, 1::real), (4, 2), (6, 3), (8, 4), (10, 5), (12, 6), (14, 7), (16, 8), (18, 9), (20, 10), (22, 11)] < 12 \<and>
   (\<exists>s11 s12 s13 rest12 rest13.
      ticks [(2::real, 1::real), (4, 2), (6, 3), (8, 4), (10, 5), (12, 6), (14, 7), (16, 8), (18, 9), (20, 10), (22, 11)] initial_state = Some s11 \<and> readcount s11 = 11 \<and>
      tick 24 12 s11 = Some s12 \<and> readcount s12 = 12 \<and>
      B s12 = [1, 2, 3, 4, 5, 6, 7, 8, 9, 10, 11, 12] \<and>
      printed s12 = printed s11 @ Reading 12 24 # rest12 \<and>
      (\<exists>e \<in> set rest12. is_Measurement e) \<and> (\<exists>e \<in> set rest12. is_Regression e) \<and>
      tick 26 13 s12 = Some s13 \<and> readcount s13 = 1 \<and>
      printed s13 = printed s12 @ Reading 13 26 # rest13 \<and>
      \<not> (\<exists>e \<in> set rest13. is_Measurement e) \<and> \<not> (\<exists>e \<in> set rest13. is_Regression e) \<and>
      ticks ([(2::real, 1::real), (4, 2), (6, 3), (8, 4), (10, 5), (12, 6), (14, 7), (16, 8), (18, 9), (20, 10), (22, 11)] @ [(24, 12), (26, 13)]) initial_state = Some s13) \<and>
   (\<exists>s5 s6 rest6.
      ticks [(2::real, 1::real), (4, 2), (6, 3), (8, 4), (10, 5)] initial_state = Some s5 \<and> readcount s5 = 5 \<and>
      tick 12 6 s5 = Some s6 \<and> readcount s6 = 6 \<and>
      printed s6 = printed s5 @ Reading 6 12 # rest6 \<and>
      (\<exists>e \<in> set rest6. is_Measurement e) \<and> \<not> (\<exists>e \<in> set rest6. is_Regression e))"
proof -
  define rs where "rs = [(2::real, 1::real), (4, 2), (6, 3), (8, 4), (10, 5), (12, 6), (14, 7), (16, 8), (18, 9), (20, 10), (22, 11)]"
  have z: "readcount initial_state = 0"
    by (rule initial_fields)
  have i: "sized initial_state \<and> 0 \<le> readcount initial_state \<and> readcount initial_state \<le> 12"
    using sized_initial z by simp
  have len: "length rs = 11" "length rs < 12" "rs \<noteq> []"
    by (simp_all add: rs_def)
  note step = read_cycle [THEN conjunct1, rule_format]
  note reach = read_cycle [THEN conjunct2, THEN conjunct2, THEN conjunct2, THEN conjunct1,
      rule_format]
  note short = read_cycle [THEN conjunct2, THEN conjunct2, THEN conjunct2, THEN conjunct2,
      THEN conjunct1, rule_format]
  obtain s11 where s11: "ticks rs initial_state = Some s11"
    using short [OF len(2)] by auto
  have r11: "sized s11" "0 \<le> readcount s11" "readcount s11 \<le> 12" "readcount s11 = 11"
    using reach [OF s11] len by simp_all
  have b11: "B s11 = [0, 1, 2, 3, 4, 5, 6, 7, 8, 9, 10, 11]"
    using ticks_short [OF sized_initial, of rs] s11 len(1) z
    by (simp add: initial_fields(2)) (simp add: rs_def)
  define w where "w = tl (B s11) @ [12]"
  have w: "w = [1, 2, 3, 4, 5, 6, 7, 8, 9, 10, 11, 12]"
    by (simp add: w_def b11)
  have nf: "\<not> (\<forall>m < 12. \<forall>n < 12. w ! m = w ! n)"
  proof
    assume a: "\<forall>m < 12. \<forall>n < 12. w ! m = w ! n"
    have "w ! 0 = w ! 1"
      by (rule a [rule_format]) simp_all
    then show False
      by (simp add: w)
  qed
  have st12: "((tick 24 12 s11 = None) =
         (readcount s11 = 11 \<and> (\<forall>m < 12. \<forall>n < 12. w ! m = w ! n))) \<and>
      (case tick 24 12 s11 of
         None \<Rightarrow> readcount s11 = 11 \<and>
           (\<exists>s1 s2 sd c x. push 12 24 (count_read s11) = Some s1 \<and> readcount s1 = 12 \<and>
              activity_measurement s1 = Some s2 \<and> readcount s2 = 12 \<and>
              printed s2 = printed s11 @ [Reading 12 24, Measurement (B s2) sd c x] \<and>
              regression_analysis s2 = None)
       | Some s' \<Rightarrow> sized s' \<and> 1 \<le> readcount s' \<and> readcount s' \<le> 12 \<and>
           readcount s' = (if readcount s11 = 12 then 1 else readcount s11 + 1) \<and>
           B s' = w \<and> T s' = tl (T s11) @ [24] \<and>
           (\<exists>rest. printed s' = printed s11 @ Reading 12 24 # rest \<and>
              ((\<exists>e \<in> set rest. is_Measurement e) = (readcount s' = 6 \<or> readcount s' = 12)) \<and>
              ((\<exists>e \<in> set rest. is_Regression e) = (readcount s' = 12))))"
    unfolding w_def
    using step [where s = s11 and temp_c = 24 and light_lx = 12] r11(1,2,3) by blast
  have "tick 24 12 s11 \<noteq> None"
    using st12 nf by blast
  then obtain s12 where s12: "tick 24 12 s11 = Some s12"
    by auto
  have c12: "sized s12 \<and> 1 \<le> readcount s12 \<and> readcount s12 \<le> 12 \<and>
      readcount s12 = (if readcount s11 = 12 then 1 else readcount s11 + 1) \<and>
      B s12 = w \<and> T s12 = tl (T s11) @ [24] \<and>
      (\<exists>rest. printed s12 = printed s11 @ Reading 12 24 # rest \<and>
         ((\<exists>e \<in> set rest. is_Measurement e) = (readcount s12 = 6 \<or> readcount s12 = 12)) \<and>
         ((\<exists>e \<in> set rest. is_Regression e) = (readcount s12 = 12)))"
    using st12 [THEN conjunct2] unfolding s12 option.case .
  then have p12: "sized s12" "readcount s12 = 12" "B s12 = w"
    using r11(4) by simp_all
  from c12 obtain rest12 where q12: "printed s12 = printed s11 @ Reading 12 24 # rest12"
    "(\<exists>e \<in> set rest12. is_Measurement e) = (readcount s12 = 6 \<or> readcount s12 = 12)"
    "(\<exists>e \<in> set rest12. is_Regression e) = (readcount s12 = 12)"
    by blast
  have rest12: "printed s12 = printed s11 @ Reading 12 24 # rest12"
    "\<exists>e \<in> set rest12. is_Measurement e" "\<exists>e \<in> set rest12. is_Regression e"
    using q12 p12(2) by blast+
  have st13: "((tick 26 13 s12 = None) =
         (readcount s12 = 11 \<and>
          (\<forall>m < 12. \<forall>n < 12. (tl (B s12) @ [13]) ! m = (tl (B s12) @ [13]) ! n))) \<and>
      (case tick 26 13 s12 of
         None \<Rightarrow> readcount s12 = 11 \<and>
           (\<exists>s1 s2 sd c x. push 13 26 (count_read s12) = Some s1 \<and> readcount s1 = 12 \<and>
              activity_measurement s1 = Some s2 \<and> readcount s2 = 12 \<and>
              printed s2 = printed s12 @ [Reading 13 26, Measurement (B s2) sd c x] \<and>
              regression_analysis s2 = None)
       | Some s' \<Rightarrow> sized s' \<and> 1 \<le> readcount s' \<and> readcount s' \<le> 12 \<and>
           readcount s' = (if readcount s12 = 12 then 1 else readcount s12 + 1) \<and>
           B s' = tl (B s12) @ [13] \<and> T s' = tl (T s12) @ [26] \<and>
           (\<exists>rest. printed s' = printed s12 @ Reading 13 26 # rest \<and>
              ((\<exists>e \<in> set rest. is_Measurement e) = (readcount s' = 6 \<or> readcount s' = 12)) \<and>
              ((\<exists>e \<in> set rest. is_Regression e) = (readcount s' = 12))))"
    using step [where s = s12 and temp_c = 26 and light_lx = 13] p12(1,2) by simp
  have "tick 26 13 s12 \<noteq> None"
    using st13 p12(2) by auto
  then obtain s13 where s13: "tick 26 13 s12 = Some s13"
    by auto
  have c13: "sized s13 \<and> 1 \<le> readcount s13 \<and> readcount s13 \<le> 12 \<and>
      readcount s13 = (if readcount s12 = 12 then 1 else readcount s12 + 1) \<and>
      B s13 = tl (B s12) @ [13] \<and> T s13 = tl (T s12) @ [26] \<and>
      (\<exists>rest. printed s13 = printed s12 @ Reading 13 26 # rest \<and>
         ((\<exists>e \<in> set rest. is_Measurement e) = (readcount s13 = 6 \<or> readcount s13 = 12)) \<and>
         ((\<exists>e \<in> set rest. is_Regression e) = (readcount s13 = 12)))"
    using st13 [THEN conjunct2] unfolding s13 option.case .
  then have p13: "readcount s13 = 1"
    using p12(2) by simp
  from c13 obtain rest13 where q13: "printed s13 = printed s12 @ Reading 13 26 # rest13"
    "(\<exists>e \<in> set rest13. is_Measurement e) = (readcount s13 = 6 \<or> readcount s13 = 12)"
    "(\<exists>e \<in> set rest13. is_Regression e) = (readcount s13 = 12)"
    by blast
  have rest13: "printed s13 = printed s12 @ Reading 13 26 # rest13"
    "\<not> (\<exists>e \<in> set rest13. is_Measurement e)" "\<not> (\<exists>e \<in> set rest13. is_Regression e)"
    using q13 p13 by simp_all
  have run: "ticks (rs @ [(24, 12), (26, 13)]) initial_state = Some s13"
    using s11 s12 s13 by (simp add: ticks_append)
  have "\<exists>s11 s12 s13 rest12 rest13.
      ticks rs initial_state = Some s11 \<and> readcount s11 = 11 \<and>
      tick 24 12 s11 = Some s12 \<and> readcount s12 = 12 \<and>
      B s12 = [1, 2, 3, 4, 5, 6, 7, 8, 9, 10, 11, 12] \<and>
      printed s12 = printed s11 @ Reading 12 24 # rest12 \<and>
      (\<exists>e \<in> set rest12. is_Measurement e) \<and> (\<exists>e \<in> set rest12. is_Regression e) \<and>
      tick 26 13 s12 = Some s13 \<and> readcount s13 = 1 \<and>
      printed s13 = printed s12 @ Reading 13 26 # rest13 \<and>
      \<not> (\<exists>e \<in> set rest13. is_Measurement e) \<and> \<not> (\<exists>e \<in> set rest13. is_Regression e) \<and>
      ticks (rs @ [(24, 12), (26, 13)]) initial_state = Some s13"
    using s11 r11(4) s12 p12(2) p12(3) [unfolded w] rest12 s13 p13 rest13 run by blast
  note first = this
  define rs5 where "rs5 = [(2::real, 1::real), (4, 2), (6, 3), (8, 4), (10, 5)]"
  have len5: "length rs5 < 12" "rs5 \<noteq> []" "length rs5 = 5"
    by (simp_all add: rs5_def)
  obtain s5 where s5: "ticks rs5 initial_state = Some s5"
    using short [OF len5(1)] by auto
  have r5: "sized s5" "0 \<le> readcount s5" "readcount s5 \<le> 12" "readcount s5 = 5"
    using reach [OF s5] len5 by simp_all
  have st6: "((tick 12 6 s5 = None) =
         (readcount s5 = 11 \<and>
          (\<forall>m < 12. \<forall>n < 12. (tl (B s5) @ [6]) ! m = (tl (B s5) @ [6]) ! n))) \<and>
      (case tick 12 6 s5 of
         None \<Rightarrow> readcount s5 = 11 \<and>
           (\<exists>s1 s2 sd c x. push 6 12 (count_read s5) = Some s1 \<and> readcount s1 = 12 \<and>
              activity_measurement s1 = Some s2 \<and> readcount s2 = 12 \<and>
              printed s2 = printed s5 @ [Reading 6 12, Measurement (B s2) sd c x] \<and>
              regression_analysis s2 = None)
       | Some s' \<Rightarrow> sized s' \<and> 1 \<le> readcount s' \<and> readcount s' \<le> 12 \<and>
           readcount s' = (if readcount s5 = 12 then 1 else readcount s5 + 1) \<and>
           B s' = tl (B s5) @ [6] \<and> T s' = tl (T s5) @ [12] \<and>
           (\<exists>rest. printed s' = printed s5 @ Reading 6 12 # rest \<and>
              ((\<exists>e \<in> set rest. is_Measurement e) = (readcount s' = 6 \<or> readcount s' = 12)) \<and>
              ((\<exists>e \<in> set rest. is_Regression e) = (readcount s' = 12))))"
    using step [where s = s5 and temp_c = 12 and light_lx = 6] r5(1,2,3) by blast
  have "tick 12 6 s5 \<noteq> None"
    using st6 r5(4) by auto
  then obtain s6 where s6: "tick 12 6 s5 = Some s6"
    by auto
  have c6: "sized s6 \<and> 1 \<le> readcount s6 \<and> readcount s6 \<le> 12 \<and>
      readcount s6 = (if readcount s5 = 12 then 1 else readcount s5 + 1) \<and>
      B s6 = tl (B s5) @ [6] \<and> T s6 = tl (T s5) @ [12] \<and>
      (\<exists>rest. printed s6 = printed s5 @ Reading 6 12 # rest \<and>
         ((\<exists>e \<in> set rest. is_Measurement e) = (readcount s6 = 6 \<or> readcount s6 = 12)) \<and>
         ((\<exists>e \<in> set rest. is_Regression e) = (readcount s6 = 12)))"
    using st6 [THEN conjunct2] unfolding s6 option.case .
  then have p6: "readcount s6 = 6"
    using r5(4) by simp
  from c6 obtain rest6 where q6: "printed s6 = printed s5 @ Reading 6 12 # rest6"
    "(\<exists>e \<in> set rest6. is_Measurement e) = (readcount s6 = 6 \<or> readcount s6 = 12)"
    "(\<exists>e \<in> set rest6. is_Regression e) = (readcount s6 = 12)"
    by blast
  have rest6: "\<exists>e \<in> set rest6. is_Measurement e" "\<not> (\<exists>e \<in> set rest6. is_Regression e)"
    using q6(2,3) p6 by simp_all
  have second: "\<exists>s5 s6 rest6.
      ticks rs5 initial_state = Some s5 \<and> readcount s5 = 5 \<and>
      tick 12 6 s5 = Some s6 \<and> readcount s6 = 6 \<and>
      printed s6 = printed s5 @ Reading 6 12 # rest6 \<and>
      (\<exists>e \<in> set rest6. is_Measurement e) \<and> \<not> (\<exists>e \<in> set rest6. is_Regression e)"
    using s5 r5(4) s6 p6 q6(1) rest6 by blast
  show ?thesis
    using i len(2) first second unfolding rs_def rs5_def by blast
qed

end
